theory Spec2Isabelle
  imports Main "HOL-Library.Multiset" "HOL-Library.Sublist"
begin

section \<open>Galaxery: tag normalisation, tag store, search and autocomplete\<close>

text \<open>
  A shallow embedding of \<^verbatim>\<open>server.js\<close> (the Express routes over SQLite) and of the
  autocomplete handler of \<^verbatim>\<open>public/js/main.js\<close>.

  Strings. A JavaScript string is a sequence of UTF-16 code units; the model reads a
  \<^typ>\<open>char\<close> as a code unit below 256 (the Latin-1 range), where \<^verbatim>\<open>\s\<close>,
  \<^verbatim>\<open>trim\<close> and \<^verbatim>\<open>toLowerCase\<close> act on one character at a time.

  Tables. Each SQLite table is the list of its rows in scan order. A query is a list
  comprehension over the tables; \<^verbatim>\<open>ORDER BY\<close> is a stable sort of the rows in scan
  order (SQL leaves the order of rows with equal keys open).
\<close>

subsection \<open>JavaScript string helpers\<close>

definition is_space :: "char \<Rightarrow> bool" where
  \<comment> \<open>the class \<^verbatim>\<open>\s\<close> below code 256: TAB, LF, VT, FF, CR, SPACE, NBSP\<close>
  "is_space c = ((of_char c :: nat) \<in> {9, 10, 11, 12, 13, 32, 160})"

definition to_lower :: "char \<Rightarrow> char" where
  \<comment> \<open>\<^verbatim>\<open>toLowerCase\<close> on one code unit: A-Z and the Latin-1 capitals (not the times sign)\<close>
  "to_lower c =
     (let n = (of_char c :: nat)
      in if (65 \<le> n \<and> n \<le> 90) \<or> (192 \<le> n \<and> n \<le> 222 \<and> n \<noteq> 215)
         then char_of (n + 32) else c)"

definition toLowerCase :: "string \<Rightarrow> string" where
  "toLowerCase s = map to_lower s"

definition trim :: "string \<Rightarrow> string" where
  "trim s = rev (dropWhile is_space (rev (dropWhile is_space s)))"

definition startsWith_hash :: "string \<Rightarrow> bool" where
  \<comment> \<open>\<^verbatim>\<open>t.startsWith('#')\<close>\<close>
  "startsWith_hash s = (case s of [] \<Rightarrow> False | c # _ \<Rightarrow> c = CHR ''#'')"

definition collapse_hashes :: "string \<Rightarrow> string" where
  \<comment> \<open>\<^verbatim>\<open>t.replace(/^#+/, '#')\<close>\<close>
  "collapse_hashes s =
     (if startsWith_hash s then CHR ''#'' # dropWhile (\<lambda>c. c = CHR ''#'') s else s)"

definition strip_hashes :: "string \<Rightarrow> string" where
  \<comment> \<open>\<^verbatim>\<open>t.replace(/^#+/, '')\<close>\<close>
  "strip_hashes s = dropWhile (\<lambda>c. c = CHR ''#'') s"

function split_ws :: "string \<Rightarrow> string list" where
  \<comment> \<open>\<^verbatim>\<open>s.split(/\s+/)\<close>: cut at every maximal run of white space\<close>
  "split_ws s =
     (let tok = takeWhile (\<lambda>c. \<not> is_space c) s;
          rest = dropWhile (\<lambda>c. \<not> is_space c) s
      in if rest = [] then [tok] else tok # split_ws (dropWhile is_space rest))"
  by pat_completeness auto
termination
proof (relation "measure length")
  show "wf (measure length)" by simp
next
  fix s :: string and tok rest
  assume r: "rest = dropWhile (\<lambda>c. \<not> is_space c) s" and ne: "rest \<noteq> []"
  have "length (dropWhile is_space rest) < length rest"
  proof (cases rest)
    case Nil
    with ne show ?thesis by simp
  next
    case (Cons c cs)
    from ne r have "\<not> \<not> is_space (hd rest)"
      using hd_dropWhile [of "\<lambda>c. \<not> is_space c" s] by simp
    with Cons have "is_space c" by simp
    with Cons show ?thesis
      by (simp add: le_imp_less_Suc length_dropWhile_le)
  qed
  also have "length rest \<le> length s"
    unfolding r by (rule length_dropWhile_le)
  finally show "(dropWhile is_space rest, s) \<in> measure length" by simp
qed

declare split_ws.simps [simp del]

fun split_on :: "char \<Rightarrow> string \<Rightarrow> string list" where
  \<comment> \<open>\<^verbatim>\<open>s.split(d)\<close> for a one-character separator\<close>
  "split_on d [] = [[]]"
| "split_on d (c # cs) =
     (if c = d then [] # split_on d cs
      else (case split_on d cs of [] \<Rightarrow> [[c]] | t # ts \<Rightarrow> (c # t) # ts))"

fun join_sp :: "string list \<Rightarrow> string" where
  \<comment> \<open>\<^verbatim>\<open>xs.join(' ')\<close>\<close>
  "join_sp [] = []"
| "join_sp [x] = x"
| "join_sp (x # y # ys) = x @ CHR '' '' # join_sp (y # ys)"

definition from_set :: "'a list \<Rightarrow> 'a list" where
  \<comment> \<open>\<^verbatim>\<open>Array.from(new Set(xs))\<close>: the first occurrence of each element, in order\<close>
  "from_set xs = rev (remdups (rev xs))"

definition or_empty :: "string option \<Rightarrow> string" where
  \<comment> \<open>\<^verbatim>\<open>(x || '')\<close> for a request field that is absent (\<open>None\<close>) or a string\<close>
  "or_empty x = (case x of None \<Rightarrow> [] | Some s \<Rightarrow> s)"

subsection \<open>The tables (\<^verbatim>\<open>initDB\<close>)\<close>

record user_row =
  u_id :: nat
  u_username :: string

record post_row =
  p_id :: nat
  p_user_id :: nat
  p_filename :: string
  p_created_at :: int

record tag_row =
  t_id :: nat
  t_name :: string

record db =
  users :: "user_row list"
  posts :: "post_row list"
  tags :: "tag_row list"
  post_tags :: "(nat \<times> nat) list"  \<comment> \<open>rows \<open>(post_id, tag_id)\<close>\<close>
  likes :: "(nat \<times> nat) list"  \<comment> \<open>rows \<open>(user_id, post_id)\<close>\<close>

definition empty_db :: db where
  "empty_db = \<lparr>users = [], posts = [], tags = [], post_tags = [], likes = []\<rparr>"

text \<open>
  The constraints that the schema declares and SQLite enforces: the primary keys of
  \<^verbatim>\<open>users\<close>, \<^verbatim>\<open>posts\<close>, \<^verbatim>\<open>tags\<close> and \<^verbatim>\<open>post_tags\<close>, and \<^verbatim>\<open>UNIQUE\<close> on
  \<^verbatim>\<open>tags.name\<close>.
\<close>

definition schema_keys :: "db \<Rightarrow> bool" where
  "schema_keys d =
     (distinct (map u_id (users d)) \<and> distinct (map p_id (posts d)) \<and>
      distinct (map t_id (tags d)) \<and> distinct (map t_name (tags d)) \<and>
      distinct (post_tags d))"

subsection \<open>Helpers of \<^verbatim>\<open>server.js\<close>\<close>

definition parseTags :: "string \<Rightarrow> string list" where
  "parseTags text =
     (if text = [] then []
      else from_set
        (map (\<lambda>t. toLowerCase (collapse_hashes t))
          (filter startsWith_hash (map trim (split_ws text)))))"

definition tag_by_name :: "db \<Rightarrow> string \<Rightarrow> tag_row option" where
  \<comment> \<open>\<^verbatim>\<open>get('SELECT id FROM tags WHERE name = ?', [t])\<close>: the first matching row\<close>
  "tag_by_name d n = find (\<lambda>r. t_name r = n) (tags d)"

definition next_tag_id :: "db \<Rightarrow> nat" where
  \<comment> \<open>the row id that \<^verbatim>\<open>AUTOINCREMENT\<close> assigns; no tag row is ever deleted, so it is
      one more than the largest id in the table\<close>
  "next_tag_id d = Suc (fold max (map t_id (tags d)) 0)"

definition insert_tag :: "string \<Rightarrow> db \<Rightarrow> nat \<times> db" where
  \<comment> \<open>\<^verbatim>\<open>run('INSERT INTO tags(name) VALUES(?)', [t])\<close>, returning \<^verbatim>\<open>lastID\<close>\<close>
  "insert_tag n d =
     (let i = next_tag_id d
      in (i, d\<lparr>tags := tags d @ [\<lparr>t_id = i, t_name = n\<rparr>]\<rparr>))"

fun ensureTagIds :: "string list \<Rightarrow> db \<Rightarrow> nat list \<times> db" where
  "ensureTagIds [] d = ([], d)"
| "ensureTagIds (t # ts) d =
     (case tag_by_name d t of
        Some row \<Rightarrow>
          (let (ids, d') = ensureTagIds ts d in (t_id row # ids, d'))
      | None \<Rightarrow>
          (let (i, d1) = insert_tag t d;
               (ids, d') = ensureTagIds ts d1
           in (i # ids, d')))"

fun attachTagsToPost :: "nat \<Rightarrow> nat list \<Rightarrow> db \<Rightarrow> db" where
  \<comment> \<open>\<^verbatim>\<open>INSERT OR IGNORE\<close>: a pair already in the table is left alone\<close>
  "attachTagsToPost pid [] d = d"
| "attachTagsToPost pid (tid # tids) d =
     attachTagsToPost pid tids
       (if (pid, tid) \<in> set (post_tags d) then d
        else d\<lparr>post_tags := post_tags d @ [(pid, tid)]\<rparr>)"

definition post_tag_names :: "db \<Rightarrow> nat \<Rightarrow> string list" where
  \<comment> \<open>\<^verbatim>\<open>SELECT t.name FROM tags t JOIN post_tags pt ON pt.tag_id = t.id
      WHERE pt.post_id = ?\<close>\<close>
  "post_tag_names d pid =
     concat (map (\<lambda>pt. map t_name (filter (\<lambda>t. t_id t = snd pt) (tags d)))
       (filter (\<lambda>pt. fst pt = pid) (post_tags d)))"

subsection \<open>Home / search (\<^verbatim>\<open>GET /\<close>)\<close>

record post_view =
  v_id :: nat
  v_user_id :: nat
  v_filename :: string
  v_created_at :: int
  v_username :: "string option"  \<comment> \<open>\<open>None\<close> is the \<^verbatim>\<open>NULL\<close> of the \<^verbatim>\<open>LEFT JOIN\<close>\<close>
  v_likes_count :: nat
  v_tags :: "string list"

record search_result =
  r_posts :: "post_view list"
  r_totalCount :: nat
  r_totalPages :: nat

datatype route_error = SqlDatatypeMismatch

datatype order_by = CreatedAsc | LikesDesc | CreatedDesc

definition sort_of :: "string option \<Rightarrow> order_by" where
  "sort_of s =
     (if s = Some ''oldest'' then CreatedAsc
      else if s = Some ''likes'' then LikesDesc else CreatedDesc)"

definition likes_count :: "db \<Rightarrow> nat \<Rightarrow> nat" where
  \<comment> \<open>\<^verbatim>\<open>(SELECT COUNT(*) FROM likes l WHERE l.post_id = p.id)\<close>\<close>
  "likes_count d pid = length (filter (\<lambda>l. snd l = pid) (likes d))"

definition view :: "db \<Rightarrow> post_row \<Rightarrow> string option \<Rightarrow> post_view" where
  \<comment> \<open>the selected columns \<^verbatim>\<open>p.*, u.username, likes_count\<close>; \<^verbatim>\<open>tags\<close> is filled in later\<close>
  "view d p un =
     \<lparr>v_id = p_id p, v_user_id = p_user_id p, v_filename = p_filename p,
      v_created_at = p_created_at p, v_username = un,
      v_likes_count = likes_count d (p_id p), v_tags = []\<rparr>"

definition owners :: "db \<Rightarrow> post_row \<Rightarrow> user_row list" where
  \<comment> \<open>the rows of \<^verbatim>\<open>users u\<close> with \<^verbatim>\<open>u.id = p.user_id\<close>\<close>
  "owners d p = filter (\<lambda>u. u_id u = p_user_id p) (users d)"

definition all_rows :: "db \<Rightarrow> post_view list" where
  \<comment> \<open>\<^verbatim>\<open>FROM posts p LEFT JOIN users u ON u.id = p.user_id\<close>\<close>
  "all_rows d =
     concat (map (\<lambda>p. case owners d p of
                         [] \<Rightarrow> [view d p None]
                       | us \<Rightarrow> map (\<lambda>u. view d p (Some (u_username u))) us)
                 (posts d))"

definition hits :: "db \<Rightarrow> nat list \<Rightarrow> post_row \<Rightarrow> nat list" where
  \<comment> \<open>\<^verbatim>\<open>pt.tag_id\<close> of the rows of \<^verbatim>\<open>post_tags pt\<close> with \<^verbatim>\<open>pt.post_id = p.id\<close> and
      \<^verbatim>\<open>pt.tag_id IN (tagIds)\<close>\<close>
  "hits d tagIds p =
     map snd (filter (\<lambda>pt. fst pt = p_id p \<and> snd pt \<in> set tagIds) (post_tags d))"

definition having_all :: "db \<Rightarrow> nat list \<Rightarrow> post_row \<Rightarrow> bool" where
  \<comment> \<open>the group of \<open>p\<close> exists and \<^verbatim>\<open>HAVING COUNT(DISTINCT pt.tag_id) = ?\<close> holds\<close>
  "having_all d tagIds p =
     (hits d tagIds p \<noteq> [] \<and> length (remdups (hits d tagIds p)) = length tagIds)"

definition tagged_rows :: "db \<Rightarrow> nat list \<Rightarrow> post_view list" where
  \<comment> \<open>\<^verbatim>\<open>FROM posts p JOIN post_tags pt ... JOIN users u ON u.id = p.user_id WHERE ...
      GROUP BY p.id HAVING ...\<close>: one row for each post (\<^verbatim>\<open>posts.id\<close> is the primary key)
      that has an owner row\<close>
  "tagged_rows d tagIds =
     concat (map (\<lambda>p. if having_all d tagIds p \<and> owners d p \<noteq> []
                       then [view d p (Some (u_username (hd (owners d p))))] else [])
                 (posts d))"

definition tagged_count :: "db \<Rightarrow> nat list \<Rightarrow> nat" where
  \<comment> \<open>\<^verbatim>\<open>SELECT COUNT(*) FROM (SELECT p.id FROM posts p JOIN post_tags pt ... GROUP BY p.id
      HAVING ...)\<close>, which does not join \<^verbatim>\<open>users\<close>\<close>
  "tagged_count d tagIds = length (filter (having_all d tagIds) (posts d))"

definition order_rows :: "order_by \<Rightarrow> post_view list \<Rightarrow> post_view list" where
  \<comment> \<open>\<^verbatim>\<open>ORDER BY ${sort}\<close>\<close>
  "order_rows ob rows =
     (case ob of
        CreatedAsc \<Rightarrow> sort_key v_created_at rows
      | LikesDesc \<Rightarrow> sort_key (\<lambda>r. - int (v_likes_count r)) rows
      | CreatedDesc \<Rightarrow> sort_key (\<lambda>r. - v_created_at r) rows)"

definition limit_offset :: "nat \<Rightarrow> int \<Rightarrow> 'a list \<Rightarrow> 'a list" where
  \<comment> \<open>\<^verbatim>\<open>LIMIT ? OFFSET ?\<close>; SQLite reads a negative offset as 0\<close>
  "limit_offset lim off rows = take lim (drop (nat off) rows)"

definition with_tags :: "db \<Rightarrow> post_view \<Rightarrow> post_view" where
  \<comment> \<open>\<^verbatim>\<open>p.tags = (await all(...)).map(r => r.name)\<close>\<close>
  "with_tags d r = r\<lparr>v_tags := post_tag_names d (v_id r)\<rparr>"

definition tagsQuery :: "string option \<Rightarrow> string list" where
  \<comment> \<open>\<^verbatim>\<open>(req.query.tags || '').split(',').map(t => t.trim()).filter(Boolean)\<close>\<close>
  "tagsQuery tq = filter (\<lambda>t. t \<noteq> []) (map trim (split_on CHR '','' (or_empty tq)))"

definition norm_search_tag :: "string \<Rightarrow> string" where
  \<comment> \<open>\<^verbatim>\<open>t.startsWith('#') ? t.toLowerCase() : '#'+t.toLowerCase()\<close>\<close>
  "norm_search_tag t =
     (if startsWith_hash t then toLowerCase t else CHR ''#'' # toLowerCase t)"

definition normTags :: "string option \<Rightarrow> string list" where
  "normTags tq = map norm_search_tag (tagsQuery tq)"

definition lookup_ids :: "db \<Rightarrow> string list \<Rightarrow> nat list" where
  \<comment> \<open>\<^verbatim>\<open>SELECT id FROM tags WHERE name IN (...)\<close>\<close>
  "lookup_ids d names = map t_id (filter (\<lambda>t. t_name t \<in> set names) (tags d))"

definition page_limit :: nat where
  "page_limit = 12"

definition total_pages :: "nat \<Rightarrow> nat" where
  \<comment> \<open>\<^verbatim>\<open>Math.max(1, Math.ceil((totalCount||0)/limit))\<close>\<close>
  "total_pages n = max 1 ((n + page_limit - 1) div page_limit)"

definition search_rows :: "db \<Rightarrow> string option \<Rightarrow> string option \<Rightarrow> post_view list" where
  \<comment> \<open>the rows of the posts query of the branch taken, ordered, before
      \<^verbatim>\<open>LIMIT\<close>/\<^verbatim>\<open>OFFSET\<close> and before the tags are filled in\<close>
  "search_rows d tq sq =
     (if tagsQuery tq = [] then order_rows (sort_of sq) (all_rows d)
      else let tagIds = lookup_ids d (normTags tq)
           in if length tagIds \<noteq> length (normTags tq) then []
              else order_rows (sort_of sq) (tagged_rows d tagIds))"

subsubsection \<open>The page number and the offset\<close>

text \<open>
  \<^verbatim>\<open>page\<close> and \<^verbatim>\<open>offset\<close> are JavaScript numbers (doubles). \<^verbatim>\<open>parseInt\<close> returns
  \<^verbatim>\<open>NaN\<close>, an infinity or a double with an integer value, so a number is modelled as
  one of these; \<open>Num n\<close> stands for the double whose value is the integer \<open>n\<close>. The
  result of \<^verbatim>\<open>page-1\<close> and of \<^verbatim>\<open>(page-1)*limit\<close> is the exact result rounded to the
  nearest double (53 significant bits, ties to even, infinity from \<open>2 ^ 1024\<close> on).
  The counts of rows reach the route as JavaScript numbers too; the model takes a count
  and the page count computed from it as exact, which they are below \<open>2 ^ 53\<close>.
\<close>

datatype number = NaN | PosInfinity | NegInfinity | Num int

function shift53 :: "int \<Rightarrow> nat" where
  \<comment> \<open>how many low bits of \<open>n\<close> do not fit into 53 significant bits\<close>
  "shift53 n = (if n < 2 ^ 53 then 0 else Suc (shift53 (n div 2)))"
  by pat_completeness auto
termination
  by (relation "measure nat") auto

declare shift53.simps [simp del]

definition round_pos :: "int \<Rightarrow> number" where
  \<comment> \<open>the double nearest to the integer \<open>n\<close>, for \<open>0 \<le> n\<close>\<close>
  "round_pos n =
     (if n < 2 ^ 53 then Num n
      else let e = shift53 n;
               q = n div 2 ^ e;
               r = n mod 2 ^ e;
               m = (if 2 ^ e < 2 * r \<or> (2 * r = 2 ^ e \<and> odd q) then q + 1 else q) * 2 ^ e
           in if 2 ^ 1024 \<le> m then PosInfinity else Num m)"

definition negate :: "number \<Rightarrow> number" where
  "negate x =
     (case x of NaN \<Rightarrow> NaN | PosInfinity \<Rightarrow> NegInfinity | NegInfinity \<Rightarrow> PosInfinity
      | Num n \<Rightarrow> Num (- n))"

definition js_round :: "int \<Rightarrow> number" where
  \<comment> \<open>the double nearest to the integer \<open>i\<close>\<close>
  "js_round i = (if 0 \<le> i then round_pos i else negate (round_pos (- i)))"

definition math_max_1 :: "number \<Rightarrow> number" where
  \<comment> \<open>\<^verbatim>\<open>Math.max(1, x)\<close>\<close>
  "math_max_1 x =
     (case x of NaN \<Rightarrow> NaN | PosInfinity \<Rightarrow> PosInfinity | NegInfinity \<Rightarrow> Num 1
      | Num n \<Rightarrow> Num (max 1 n))"

definition minus_1 :: "number \<Rightarrow> number" where
  \<comment> \<open>\<^verbatim>\<open>x - 1\<close>\<close>
  "minus_1 x = (case x of Num n \<Rightarrow> js_round (n - 1) | y \<Rightarrow> y)"

definition times_limit :: "number \<Rightarrow> number" where
  \<comment> \<open>\<^verbatim>\<open>x * limit\<close>\<close>
  "times_limit x = (case x of Num n \<Rightarrow> js_round (n * int page_limit) | y \<Rightarrow> y)"

definition bind_offset :: "number \<Rightarrow> int option" where
  \<comment> \<open>the number bound to \<^verbatim>\<open>OFFSET ?\<close>, as SQLite reads it: \<^verbatim>\<open>NaN\<close> arrives as
      \<^verbatim>\<open>NULL\<close>, a number outside the 32-bit integers as a \<^verbatim>\<open>REAL\<close>; a value that is
      not losslessly a 64-bit integer is refused (\<^verbatim>\<open>SQLITE_MISMATCH\<close>, here \<open>None\<close>)\<close>
  "bind_offset x =
     (case x of
        Num n \<Rightarrow> if - (2 ^ 63) < n \<and> n < 2 ^ 63 then Some n else None
      | _ \<Rightarrow> None)"

definition page_offset :: "number \<Rightarrow> int option" where
  \<comment> \<open>lines 160-162 and the binding of \<^verbatim>\<open>offset\<close> in the posts query; \<open>pg\<close> is the
      value of \<^verbatim>\<open>parseInt(req.query.page||'1')\<close>\<close>
  "page_offset pg =
     (let page = math_max_1 pg;
          offset = times_limit (minus_1 page)
      in bind_offset offset)"

definition search :: "db \<Rightarrow> string option \<Rightarrow> string option \<Rightarrow> number
    \<Rightarrow> route_error + search_result" where
  \<comment> \<open>\<open>pg\<close> is the value of \<^verbatim>\<open>parseInt(req.query.page||'1')\<close>. When SQLite refuses the
      offset, the posts query is rejected and nothing is rendered.\<close>
  "search d tq sq pg =
     (if tagsQuery tq = [] then
        (case page_offset pg of
           None \<Rightarrow> Inl SqlDatatypeMismatch
         | Some off \<Rightarrow>
             let totalCount = length (posts d)
             in Inr \<lparr>r_posts = map (with_tags d)
                       (limit_offset page_limit off (order_rows (sort_of sq) (all_rows d))),
                     r_totalCount = totalCount,
                     r_totalPages = total_pages totalCount\<rparr>)
      else
        let tagIds = lookup_ids d (normTags tq)
        in if length tagIds \<noteq> length (normTags tq) then
             Inr \<lparr>r_posts = [], r_totalCount = 0, r_totalPages = total_pages 0\<rparr>
           else
             (case page_offset pg of
                None \<Rightarrow> Inl SqlDatatypeMismatch
              | Some off \<Rightarrow>
                  let totalCount = tagged_count d tagIds
                  in Inr \<lparr>r_posts = map (with_tags d)
                            (limit_offset page_limit off
                              (order_rows (sort_of sq) (tagged_rows d tagIds))),
                          r_totalCount = totalCount,
                          r_totalPages = total_pages totalCount\<rparr>))"

definition page_posts :: "db \<Rightarrow> string option \<Rightarrow> string option \<Rightarrow> nat \<Rightarrow> post_view list" where
  \<comment> \<open>the posts that the route renders for page \<open>k\<close>\<close>
  "page_posts d tq sq k =
     (case search d tq sq (Num (int k)) of Inl e \<Rightarrow> [] | Inr r \<Rightarrow> r_posts r)"

subsection \<open>Autocomplete (\<^verbatim>\<open>GET /tags/autocomplete\<close> and the input handler of \<^verbatim>\<open>main.js\<close>)\<close>

definition ascii_fold :: "char \<Rightarrow> char" where
  \<comment> \<open>SQLite's \<^verbatim>\<open>LIKE\<close> ignores case for the letters A-Z only\<close>
  "ascii_fold c =
     (let n = (of_char c :: nat) in if 65 \<le> n \<and> n \<le> 90 then char_of (n + 32) else c)"

fun like :: "string \<Rightarrow> string \<Rightarrow> bool" where
  \<comment> \<open>\<open>like pat s\<close> is \<^verbatim>\<open>s LIKE pat\<close> without \<^verbatim>\<open>ESCAPE\<close>: \<^verbatim>\<open>%\<close> is any run of
      characters, \<^verbatim>\<open>_\<close> is any one character\<close>
  "like [] [] = True"
| "like [] (c # cs) = False"
| "like (p # ps) [] = (p = CHR ''%'' \<and> like ps [])"
| "like (p # ps) (c # cs) =
     (if p = CHR ''%'' then like ps (c # cs) \<or> like (p # ps) cs
      else (p = CHR ''_'' \<or> ascii_fold p = ascii_fold c) \<and> like ps cs)"

definition usage_count :: "db \<Rightarrow> nat \<Rightarrow> nat" where
  \<comment> \<open>\<^verbatim>\<open>COUNT(pt.post_id)\<close> over \<^verbatim>\<open>tags t LEFT JOIN post_tags pt ON pt.tag_id = t.id
      GROUP BY t.id\<close> (\<^verbatim>\<open>tags.id\<close> is the primary key: one group for each row)\<close>
  "usage_count d tid = length (filter (\<lambda>pt. snd pt = tid) (post_tags d))"

definition autocomplete :: "db \<Rightarrow> string option \<Rightarrow> (string \<times> nat) list" where
  \<comment> \<open>the rows \<open>(name, cnt)\<close> that the route answers with\<close>
  "autocomplete d qp =
     (let q = toLowerCase (or_empty qp)
      in if q = [] then []
         else let normalized = (if startsWith_hash q then q else CHR ''#'' # q);
                  rows = map (\<lambda>t. (t_name t, usage_count d (t_id t)))
                           (filter (\<lambda>t. like (normalized @ ''%'') (t_name t)) (tags d))
              in take 10 (sort_key (\<lambda>r. - int (snd r)) rows))"

definition input_prefix :: "string \<Rightarrow> string option" where
  \<comment> \<open>\<^verbatim>\<open>main.js\<close>, lines 10-17: the prefix that is sent, \<open>None\<close> when the handler
      clears the list instead of asking the server. \<^const>\<open>split_ws\<close> never returns the
      empty list, so there is a last token. The handler also skips a prefix equal to the
      one it asked for last (\<^verbatim>\<open>lastQ\<close>) and leaves the list as it is; that is not
      modelled.\<close>
  "input_prefix v =
     (let q = trim v
      in if q = [] then None
         else let parts = split_ws q;
                  token = last parts;
                  prefix = toLowerCase (strip_hashes token)
              in if prefix = [] then None else Some prefix)"

definition suggest :: "db \<Rightarrow> string \<Rightarrow> (string \<times> nat) list" where
  \<comment> \<open>what the input handler shows for the text of the search box\<close>
  "suggest d v =
     (case input_prefix v of None \<Rightarrow> [] | Some p \<Rightarrow> autocomplete d (Some p))"

subsection \<open>Editing the tags of a post (\<^verbatim>\<open>POST /post/:id/edit\<close>)\<close>

datatype http_error = Status401 | Status404 | Status403

definition delete_post_tags :: "nat \<Rightarrow> db \<Rightarrow> db" where
  \<comment> \<open>\<^verbatim>\<open>DELETE FROM post_tags WHERE post_id = ?\<close>\<close>
  "delete_post_tags pid d = d\<lparr>post_tags := filter (\<lambda>pt. fst pt \<noteq> pid) (post_tags d)\<rparr>"

definition blank :: "string option \<Rightarrow> bool" where
  \<comment> \<open>\<^verbatim>\<open>!tagsInput || tagsInput.trim() === ''\<close>\<close>
  "blank t = (case t of None \<Rightarrow> True | Some s \<Rightarrow> s = [] \<or> trim s = [])"

definition set_tags :: "nat \<Rightarrow> string \<Rightarrow> db \<Rightarrow> db" where
  \<comment> \<open>lines 321-328: parse, delete the old rows, resolve or create the ids, attach\<close>
  "set_tags pid tagsInput d =
     (let tgs = parseTags tagsInput;
          d1 = delete_post_tags pid d;
          (tagIds, d2) = ensureTagIds tgs d1
      in attachTagsToPost pid tagIds d2)"

definition edit_post :: "nat option \<Rightarrow> nat \<Rightarrow> string option \<Rightarrow> db \<Rightarrow> http_error + db" where
  \<comment> \<open>\<open>session\<close> is the id of \<^verbatim>\<open>req.session.user\<close>, \<open>body_tags\<close> is \<^verbatim>\<open>req.body.tags\<close>\<close>
  "edit_post session pid body_tags d =
     (case session of
        None \<Rightarrow> Inl Status401
      | Some uid \<Rightarrow>
          (case find (\<lambda>p. p_id p = pid) (posts d) of
             None \<Rightarrow> Inl Status404
           | Some post \<Rightarrow>
               if p_user_id post \<noteq> uid then Inl Status403
               else
                 let tagsInput =
                       (if blank body_tags
                        then join_sp (post_tag_names d (p_id post))
                        else or_empty body_tags)
                 in Inr (set_tags (p_id post) tagsInput d)))"

subsection \<open>Canonical tag names\<close>

text \<open>
  The form of the names that \<^const>\<open>parseTags\<close> produces, and so of every name that the
  routes store in \<^verbatim>\<open>tags\<close>: the name starts with the marker, holds no white space, and
  lower-casing it and collapsing its leading markers leaves it as it is.
\<close>

definition canonical_tag :: "string \<Rightarrow> bool" where
  "canonical_tag n =
     (startsWith_hash n \<and> (\<forall>c\<in>set n. \<not> is_space c) \<and> toLowerCase (collapse_hashes n) = n)"

definition canonical_vocabulary :: "db \<Rightarrow> bool" where
  "canonical_vocabulary d = (\<forall>t\<in>set (tags d). canonical_tag (t_name t))"

subsection \<open>Example stores\<close>

definition cats_db :: db where
  \<comment> \<open>one user; post 1 (older) tagged \<^verbatim>\<open>#cat\<close> and \<^verbatim>\<open>#dog\<close>, post 2 (newer) tagged
      \<^verbatim>\<open>#cat\<close>; no likes\<close>
  "cats_db =
     \<lparr>users = [\<lparr>u_id = 1, u_username = ''bob''\<rparr>],
      posts = [\<lparr>p_id = 1, p_user_id = 1, p_filename = ''a.png'', p_created_at = 100\<rparr>,
               \<lparr>p_id = 2, p_user_id = 1, p_filename = ''b.png'', p_created_at = 200\<rparr>],
      tags = [\<lparr>t_id = 1, t_name = ''#cat''\<rparr>, \<lparr>t_id = 2, t_name = ''#dog''\<rparr>],
      post_tags = [(1, 1), (1, 2), (2, 1)],
      likes = []\<rparr>"

definition birds_db :: db where
  \<comment> \<open>\<^const>\<open>cats_db\<close> after the owner has set the tags of post 1 to \<^verbatim>\<open>#bird\<close>\<close>
  "birds_db =
     \<lparr>users = [\<lparr>u_id = 1, u_username = ''bob''\<rparr>],
      posts = [\<lparr>p_id = 1, p_user_id = 1, p_filename = ''a.png'', p_created_at = 100\<rparr>,
               \<lparr>p_id = 2, p_user_id = 1, p_filename = ''b.png'', p_created_at = 200\<rparr>],
      tags = [\<lparr>t_id = 1, t_name = ''#cat''\<rparr>, \<lparr>t_id = 2, t_name = ''#dog''\<rparr>,
              \<lparr>t_id = 3, t_name = ''#bird''\<rparr>],
      post_tags = [(2, 1), (1, 3)],
      likes = []\<rparr>"

definition many_db :: db where
  \<comment> \<open>one user and 13 posts, post \<open>i\<close> created at time \<open>i\<close>, all tagged \<^verbatim>\<open>#cat\<close>\<close>
  "many_db =
     \<lparr>users = [\<lparr>u_id = 1, u_username = ''bob''\<rparr>],
      posts = map (\<lambda>i. \<lparr>p_id = i, p_user_id = 1, p_filename = ''p.png'',
                           p_created_at = int i\<rparr>) [1..<14],
      tags = [\<lparr>t_id = 1, t_name = ''#cat''\<rparr>],
      post_tags = map (\<lambda>i. (i, 1)) [1..<14],
      likes = []\<rparr>"

section \<open>Properties\<close>

subsection \<open>Basic facts about the helpers\<close>

lemma set_from_set [simp]: "set (from_set xs) = set xs"
  by (simp add: from_set_def)

lemma distinct_from_set [simp]: "distinct (from_set xs)"
  by (simp add: from_set_def)

lemma hash_not_space [simp]: "\<not> is_space CHR ''#''"
  by (simp add: is_space_def)

lemma to_lower_hash [simp]: "to_lower CHR ''#'' = CHR ''#''"
  by (simp add: to_lower_def)

lemma trim_id:
  assumes "s \<noteq> []" "\<not> is_space (hd s)" "\<not> is_space (last s)"
  shows "trim s = s"
proof -
  from assms have "dropWhile is_space s = s" by (cases s) auto
  moreover have "dropWhile is_space (rev s) = rev s"
  proof (cases "rev s")
    case Nil
    then show ?thesis by simp
  next
    case (Cons c cs)
    with assms(1) have "last s = c" using hd_rev [of s] by simp
    with assms(3) Cons show ?thesis by simp
  qed
  ultimately show ?thesis by (simp add: trim_def)
qed

lemma split_ws_Nil: "split_ws [] = [[]]"
  by (simp add: split_ws.simps)

lemma split_ws_nonempty: "split_ws s \<noteq> []"
  by (subst split_ws.simps) (simp add: Let_def)

lemma split_ws_all_space:
  assumes "\<forall>c\<in>set s. is_space c" "s \<noteq> []"
  shows "split_ws s = [[], []]"
proof -
  from assms have t: "takeWhile (\<lambda>c. \<not> is_space c) s = []"
    by (cases s) auto
  from assms have r: "dropWhile (\<lambda>c. \<not> is_space c) s = s"
    by (cases s) auto
  from assms have d: "dropWhile is_space s = []" by simp
  show ?thesis
    by (subst split_ws.simps) (simp add: t r d split_ws_Nil assms)
qed

lemma parseTags_blank: "\<forall>c\<in>set text. is_space c \<Longrightarrow> parseTags text = []"
  by (cases "text = []")
    (simp_all add: parseTags_def split_ws_all_space trim_def startsWith_hash_def from_set_def)

lemma hashes_token:
  assumes "t \<noteq> []" "set t \<subseteq> {CHR ''#''}"
  shows "trim t = t" "startsWith_hash t" "toLowerCase (collapse_hashes t) = ''#''"
proof -
  from assms obtain cs where t: "t = CHR ''#'' # cs" by (cases t) auto
  from assms have "hd t \<in> {CHR ''#''}" "last t \<in> {CHR ''#''}"
    using last_in_set [of t] hd_in_set [of t] by blast+
  then have "hd t = CHR ''#''" "last t = CHR ''#''" by simp_all
  with assms show "trim t = t" by (simp add: trim_id)
  show sw: "startsWith_hash t" by (simp add: t startsWith_hash_def)
  from assms have "dropWhile (\<lambda>c. c = CHR ''#'') t = []" by auto
  with sw show "toLowerCase (collapse_hashes t) = ''#''"
    by (simp add: collapse_hashes_def toLowerCase_def)
qed

lemma find_snoc:
  "find P (xs @ [x]) =
     (case find P xs of Some y \<Rightarrow> Some y | None \<Rightarrow> if P x then Some x else None)"
  by (induction xs) auto

lemma tag_by_name_None: "tag_by_name d n = None \<longleftrightarrow> n \<notin> set (map t_name (tags d))"
  by (auto simp: tag_by_name_def find_None_iff)

lemma tag_by_name_Some:
  "tag_by_name d n = Some row \<Longrightarrow> row \<in> set (tags d) \<and> t_name row = n"
  by (auto simp: tag_by_name_def find_Some_iff)

lemma ensure_single:
  "ensureTagIds [n] d =
     (case tag_by_name d n of
        Some row \<Rightarrow> ([t_id row], d)
      | None \<Rightarrow>
          ([next_tag_id d], d\<lparr>tags := tags d @ [\<lparr>t_id = next_tag_id d, t_name = n\<rparr>]\<rparr>))"
  by (simp add: insert_tag_def Let_def split: option.splits)

lemma tag_by_name_after_insert:
  "tag_by_name d n = None \<Longrightarrow>
   tag_by_name (d\<lparr>tags := tags d @ [\<lparr>t_id = i, t_name = n\<rparr>]\<rparr>) n
     = Some \<lparr>t_id = i, t_name = n\<rparr>"
  by (simp add: tag_by_name_def find_snoc)

subsection \<open>The tag-field normaliser\<close>

text \<open>
  Claim C8 says that \<^verbatim>\<open>parseTags\<close> discards a token made of marker characters only.
  It does not: \<^verbatim>\<open>replace(/^#+/, '#')\<close> turns such a token into the one-character tag
  \<^verbatim>\<open>#\<close>, and nothing filters it afterwards. On the input \<^verbatim>\<open>##\<close> the result is the
  list holding \<^verbatim>\<open>#\<close>.
\<close>

theorem parseTags_marker_only_counterexample: "parseTags ''##'' = [''#'']"
  by code_simp

text \<open>
  Claim C8 as the code has it: an input that is empty or holds white space only yields the
  empty list, and a token made of marker characters only is kept, as the tag \<^verbatim>\<open>#\<close>.
\<close>

theorem parseTags_marker_only:
  "((\<forall>c\<in>set text. is_space c) \<longrightarrow> parseTags text = []) \<and>
   (t \<in> set (split_ws text) \<and> t \<noteq> [] \<and> set t \<subseteq> {CHR ''#''}
      \<longrightarrow> ''#'' \<in> set (parseTags text))"
proof (intro conjI impI)
  assume "\<forall>c\<in>set text. is_space c"
  then show "parseTags text = []" by (rule parseTags_blank)
next
  assume a: "t \<in> set (split_ws text) \<and> t \<noteq> [] \<and> set t \<subseteq> {CHR ''#''}"
  then have ne: "text \<noteq> []" by (auto simp: split_ws_Nil)
  from a have h: "trim t = t" "startsWith_hash t" "toLowerCase (collapse_hashes t) = ''#''"
    by (simp_all add: hashes_token)
  from a h have "t \<in> set (filter startsWith_hash (map trim (split_ws text)))"
    by force
  then have "toLowerCase (collapse_hashes t) \<in>
      set (map (\<lambda>t. toLowerCase (collapse_hashes t))
            (filter startsWith_hash (map trim (split_ws text))))"
    by simp
  with ne h show "''#'' \<in> set (parseTags text)"
    by (simp add: parseTags_def)
qed

theorem parseTags_marker_only_witness:
  "is_space CHR '' '' \<and> parseTags '' '' = [] \<and>
   ''###'' \<in> set (split_ws ''#a ###'') \<and> ''#'' \<in> set (parseTags ''#a ###'')"
proof -
  have h1: "\<forall>c\<in>set '' ''. is_space c" by (simp add: is_space_def)
  have h2: "''###'' \<in> set (split_ws ''#a ###'')" by code_simp
  from h1 parseTags_marker_only [of "'' ''"] have "parseTags '' '' = []" by blast
  moreover from h2 parseTags_marker_only [of "''#a ###''" "''###''"]
  have "''#'' \<in> set (parseTags ''#a ###'')" by simp
  ultimately show ?thesis using h1 h2 by simp
qed

subsection \<open>The tag store\<close>

text \<open>
  Claim C9: \<^verbatim>\<open>ensureTagIds\<close> is idempotent for one name. Called twice in succession
  with the list holding the name \<open>n\<close>, it returns the same single identifier both times,
  the second call leaves the store as the first call left it, the vocabulary gains at most
  one row over both calls, and the number of rows named \<open>n\<close> does not grow beyond one.
\<close>

theorem ensureTagIds_twice:
  "fst (ensureTagIds [n] (snd (ensureTagIds [n] d))) = fst (ensureTagIds [n] d) \<and>
   length (fst (ensureTagIds [n] d)) = 1 \<and>
   snd (ensureTagIds [n] (snd (ensureTagIds [n] d))) = snd (ensureTagIds [n] d) \<and>
   length (tags (snd (ensureTagIds [n] (snd (ensureTagIds [n] d))))) \<le> length (tags d) + 1 \<and>
   length (filter (\<lambda>t. t_name t = n)
            (tags (snd (ensureTagIds [n] (snd (ensureTagIds [n] d))))))
     = max 1 (length (filter (\<lambda>t. t_name t = n) (tags d)))"
proof (cases "tag_by_name d n")
  case None
  define d1 where "d1 = d\<lparr>tags := tags d @ [\<lparr>t_id = next_tag_id d, t_name = n\<rparr>]\<rparr>"
  have e1: "ensureTagIds [n] d = ([next_tag_id d], d1)"
    using None by (simp only: ensure_single d1_def option.case)
  have "tag_by_name d1 n = Some \<lparr>t_id = next_tag_id d, t_name = n\<rparr>"
    unfolding d1_def using None by (rule tag_by_name_after_insert)
  then have e2: "ensureTagIds [n] d1 = ([next_tag_id d], d1)"
    by (simp only: ensure_single option.case tag_row.simps)
  have "filter (\<lambda>t. t_name t = n) (tags d) = []"
    using None by (auto simp: tag_by_name_None filter_empty_conv)
  then show ?thesis
    by (simp only: e1 e2 fst_conv snd_conv) (simp add: d1_def)
next
  case (Some row)
  have e1: "ensureTagIds [n] d = ([t_id row], d)"
    using Some by (simp only: ensure_single option.case)
  from Some have "row \<in> set (tags d)" "t_name row = n"
    by (auto dest: tag_by_name_Some)
  then have "filter (\<lambda>t. t_name t = n) (tags d) \<noteq> []"
    by (auto simp: filter_empty_conv)
  then have "1 \<le> length (filter (\<lambda>t. t_name t = n) (tags d))"
    by (cases "filter (\<lambda>t. t_name t = n) (tags d)") auto
  then show ?thesis
    by (simp only: e1 fst_conv snd_conv) simp
qed

theorem ensureTagIds_twice_witness:
  "fst (ensureTagIds [''#cat''] (snd (ensureTagIds [''#cat''] empty_db))) = [1] \<and>
   fst (ensureTagIds [''#cat''] empty_db) = [1] \<and>
   length (tags (snd (ensureTagIds [''#cat''] (snd (ensureTagIds [''#cat''] empty_db))))) = 1"
  using ensureTagIds_twice [of "''#cat''" empty_db]
  by (simp add: empty_db_def tag_by_name_def insert_tag_def next_tag_id_def)

subsection \<open>Search: a name outside the vocabulary\<close>

lemma total_pages_0 [simp]: "total_pages 0 = 1"
  by (simp add: total_pages_def page_limit_def)

lemma lookup_ids_short:
  assumes dn: "distinct (map t_name (tags d))"
    and n: "n \<in> set names" "n \<notin> set (map t_name (tags d))"
  shows "length (lookup_ids d names) < length names"
proof -
  define F where "F = filter (\<lambda>t. t_name t \<in> set names) (tags d)"
  have "distinct (map t_name F)"
    unfolding F_def using dn by (rule distinct_map_filter)
  then have "length F = card (set (map t_name F))"
    using distinct_card [of "map t_name F"] by simp
  also have "set (map t_name F) \<subseteq> set names - {n}"
    using n by (auto simp: F_def)
  then have "card (set (map t_name F)) \<le> card (set names - {n})"
    by (intro card_mono) auto
  also have "\<dots> < card (set names)"
    using n by (intro card_Diff1_less) auto
  also have "\<dots> \<le> length names" by (rule card_length)
  finally show ?thesis by (simp add: lookup_ids_def F_def)
qed

text \<open>
  Claim C2: when one of the requested names, as normalised by the route, has no row in
  \<^verbatim>\<open>tags\<close>, the search answers with no posts and a total of 0. It is a result, not an
  error, whatever the page parameter is (also \<^verbatim>\<open>NaN\<close> or a page whose offset
  SQLite would refuse: this branch runs no query with an offset), and the rows of
  \<^verbatim>\<open>post_tags\<close> play no part in it: any table \<open>pt\<close> in their place gives the same answer. The names of
  \<^verbatim>\<open>tags\<close> are unique, as the schema has it.
\<close>

theorem search_unknown_tag:
  assumes "distinct (map t_name (tags d))"
    and "n \<in> set (normTags tq)" and "n \<notin> set (map t_name (tags d))"
  shows "search (d\<lparr>post_tags := pt\<rparr>) tq sq pg
           = Inr \<lparr>r_posts = [], r_totalCount = 0, r_totalPages = 1\<rparr>"
proof -
  let ?d = "d\<lparr>post_tags := pt\<rparr>"
  from assms(2) have ne: "tagsQuery tq \<noteq> []" by (auto simp: normTags_def)
  from assms have "length (lookup_ids ?d (normTags tq)) < length (normTags tq)"
    by (intro lookup_ids_short) simp_all
  then have "length (lookup_ids ?d (normTags tq)) \<noteq> length (normTags tq)" by simp
  with ne show ?thesis
    by (simp add: search_def Let_def)
qed

theorem search_unknown_tag_witness:
  "distinct (map t_name (tags cats_db)) \<and>
   ''#bird'' \<in> set (normTags (Some ''cat, Bird'')) \<and>
   ''#bird'' \<notin> set (map t_name (tags cats_db)) \<and>
   search cats_db (Some ''cat, Bird'') None NaN
     = Inr \<lparr>r_posts = [], r_totalCount = 0, r_totalPages = 1\<rparr>"
proof -
  have h1: "distinct (map t_name (tags cats_db))" by (simp add: cats_db_def)
  have h2: "''#bird'' \<in> set (normTags (Some ''cat, Bird''))" by code_simp
  have h3: "''#bird'' \<notin> set (map t_name (tags cats_db))" by (simp add: cats_db_def)
  have "cats_db\<lparr>post_tags := post_tags cats_db\<rparr> = cats_db" by simp
  with search_unknown_tag [OF h1 h2 h3, of "post_tags cats_db" None NaN]
  show ?thesis using h1 h2 h3 by simp
qed

subsection \<open>The page number and the offset\<close>

lemma shift53_small: "n < 2 ^ 53 \<Longrightarrow> shift53 n = 0"
  by (subst shift53.simps) simp

lemma js_round_exact:
  assumes "- (2 ^ 53) < i" "i < 2 ^ 53"
  shows "js_round i = Num i"
  using assms by (simp add: js_round_def round_pos_def negate_def)

lemma page_offset_exact:
  assumes "(p - 1) * 12 < 2 ^ 53"
  shows "page_offset (Num p) = Some ((max 1 p - 1) * 12)"
proof -
  let ?q = "max 1 p - 1"
  have q: "0 \<le> ?q" "?q * 12 < 2 ^ 53"
    using assms by (simp_all add: max_def)
  then have q1: "- (2 ^ 53) < ?q" "?q < 2 ^ 53" by simp_all
  from q have q2: "- (2 ^ 53) < ?q * 12" by simp
  have m: "minus_1 (math_max_1 (Num p)) = Num ?q"
    using js_round_exact [OF q1] by (simp add: minus_1_def math_max_1_def)
  have t: "times_limit (Num ?q) = Num (?q * 12)"
    using js_round_exact [OF q2 q(2)] by (simp add: times_limit_def page_limit_def)
  have "- (2 ^ 63) < ?q * 12" "?q * 12 < 2 ^ 63"
    using q by simp_all
  then have "bind_offset (Num (?q * 12)) = Some (?q * 12)"
    by (simp add: bind_offset_def)
  then show ?thesis
    by (simp only: page_offset_def Let_def m t)
qed

lemma page_offset_floor: "page_offset (Num p) = page_offset (Num (max 1 p))"
  by (simp add: page_offset_def math_max_1_def)

text \<open>
  The page the route cannot serve: \<^verbatim>\<open>parseInt\<close> reads 23 nines as the double of value
  99999999999999991611392, the offset is no 64-bit integer, and the posts query fails.
\<close>

lemma search_huge_page:
  "search cats_db None None (Num 99999999999999991611392) = Inl SqlDatatypeMismatch"
  by code_simp

subsection \<open>Search: the shape of a result\<close>

lemma search_floor: "search d tq sq (Num p) = search d tq sq (Num (max 1 p))"
  by (simp add: search_def Let_def page_offset_floor [of p, symmetric])

lemma search_result_rows:
  assumes "search d tq sq pg = Inr r"
  shows "\<exists>off. r_posts r
           = map (with_tags d) (take page_limit (drop off (search_rows d tq sq)))"
proof (cases "tagsQuery tq \<noteq> []
    \<and> length (lookup_ids d (normTags tq)) \<noteq> length (normTags tq)")
  case True
  with assms have "r_posts r = []" "search_rows d tq sq = []"
    by (auto simp: search_def search_rows_def Let_def)
  then show ?thesis by simp
next
  case False
  with assms obtain off where "page_offset pg = Some off"
    by (cases "page_offset pg") (auto simp: search_def Let_def split: if_splits)
  with assms False
  have "r_posts r = map (with_tags d) (take page_limit (drop (nat off) (search_rows d tq sq)))"
    by (auto simp: search_def search_rows_def Let_def limit_offset_def split: if_splits)
  then show ?thesis by blast
qed

lemma search_result_total:
  assumes "search d tq sq pg = Inr r"
  shows "r_totalPages r = total_pages (r_totalCount r)"
    and "r_totalCount r \<le> length (posts d)"
    and "search d tq sq pg' = Inr r' \<Longrightarrow> r_totalCount r' = r_totalCount r"
proof -
  from assms show "r_totalPages r = total_pages (r_totalCount r)"
    by (auto simp: search_def Let_def split: if_splits option.splits)
  from assms show "r_totalCount r \<le> length (posts d)"
    by (auto simp: search_def Let_def tagged_count_def split: if_splits option.splits)
  assume "search d tq sq pg' = Inr r'"
  with assms show "r_totalCount r' = r_totalCount r"
    by (auto simp: search_def Let_def split: if_splits option.splits)
qed

lemma search_exact_page:
  assumes "(p - 1) * 12 < 2 ^ 53"
  shows "\<exists>r. search d tq sq (Num p) = Inr r \<and>
     r_posts r = map (with_tags d)
        (take page_limit (drop (nat ((max 1 p - 1) * 12)) (search_rows d tq sq)))"
  using page_offset_exact [OF assms]
  by (simp add: search_def search_rows_def Let_def limit_offset_def)

subsection \<open>Search: the order of the results\<close>

lemma order_rows_sorted:
  "(case ob of
      CreatedAsc \<Rightarrow> sorted_wrt (\<lambda>a b. v_created_at a \<le> v_created_at b)
    | LikesDesc \<Rightarrow> sorted_wrt (\<lambda>a b. v_likes_count b \<le> v_likes_count a)
    | CreatedDesc \<Rightarrow> sorted_wrt (\<lambda>a b. v_created_at b \<le> v_created_at a))
     (order_rows ob rows)"
proof (cases ob)
  case CreatedAsc
  have "sorted (map v_created_at (sort_key v_created_at rows))" by (rule sorted_sort_key)
  then show ?thesis by (simp add: CreatedAsc order_rows_def sorted_map)
next
  case LikesDesc
  have "sorted (map (\<lambda>r. - int (v_likes_count r))
          (sort_key (\<lambda>r. - int (v_likes_count r)) rows))"
    by (rule sorted_sort_key)
  then show ?thesis by (simp add: LikesDesc order_rows_def sorted_map)
next
  case CreatedDesc
  have "sorted (map (\<lambda>r. - v_created_at r) (sort_key (\<lambda>r. - v_created_at r) rows))"
    by (rule sorted_sort_key)
  then show ?thesis by (simp add: CreatedDesc order_rows_def sorted_map)
qed

lemma search_rows_sorted:
  "(case sort_of sq of
      CreatedAsc \<Rightarrow> sorted_wrt (\<lambda>a b. v_created_at a \<le> v_created_at b)
    | LikesDesc \<Rightarrow> sorted_wrt (\<lambda>a b. v_likes_count b \<le> v_likes_count a)
    | CreatedDesc \<Rightarrow> sorted_wrt (\<lambda>a b. v_created_at b \<le> v_created_at a))
     (search_rows d tq sq)"
proof -
  have "search_rows d tq sq = [] \<or> (\<exists>rows. search_rows d tq sq = order_rows (sort_of sq) rows)"
    by (auto simp: search_rows_def Let_def)
  then show ?thesis
  proof
    assume "search_rows d tq sq = []"
    then show ?thesis by (cases "sort_of sq") simp_all
  next
    assume "\<exists>rows. search_rows d tq sq = order_rows (sort_of sq) rows"
    then obtain rows where "search_rows d tq sq = order_rows (sort_of sq) rows" ..
    then show ?thesis by (simp only: order_rows_sorted)
  qed
qed





subsection \<open>Search: pagination\<close>

lemma concat_pages:
  "concat (map (\<lambda>k. take m (drop ((k - 1) * m) xs)) [1..<Suc n]) = take (n * m) xs"
proof (induction n)
  case 0
  then show ?case by simp
next
  case (Suc n)
  have "take (n * m) xs @ take m (drop (n * m) xs) = take (n * m + m) xs"
    by (simp add: take_add)
  with Suc show ?case by (simp add: add.commute)
qed

lemma total_pages_cover: "n \<le> total_pages n * page_limit"
  unfolding total_pages_def page_limit_def by (simp add: max_def) arith

lemma total_pages_last: "(total_pages n - 1) * 12 \<le> n"
  unfolding total_pages_def page_limit_def by (simp add: max_def) arith

lemma exact_page_nat:
  assumes "k \<le> total_pages n" "n < 2 ^ 53"
  shows "(int k - 1) * 12 < 2 ^ 53"
proof -
  have "(k - 1) * 12 \<le> (total_pages n - 1) * 12"
    using assms(1) by simp
  also have "\<dots> \<le> n" by (rule total_pages_last)
  finally have "(k - 1) * 12 < 2 ^ 53" using assms(2) by simp
  then have "int ((k - 1) * 12) < 2 ^ 53"
    by (metis of_nat_less_numeral_power_cancel_iff)
  moreover have "(int k - 1) * 12 \<le> int ((k - 1) * 12)" by simp
  ultimately show ?thesis by simp
qed

lemma page_posts_eq:
  assumes "1 \<le> k" "(int k - 1) * 12 < 2 ^ 53"
  shows "page_posts d tq sq k =
     map (with_tags d) (take page_limit (drop ((k - 1) * page_limit) (search_rows d tq sq)))"
proof -
  from assms(1) have "(max 1 (int k) - 1) * 12 = int ((k - 1) * page_limit)"
    by (simp add: max_def page_limit_def)
  then have "nat ((max 1 (int k) - 1) * 12) = (k - 1) * page_limit"
    by (simp only: nat_int)
  with search_exact_page [OF assms(2), of d tq sq] show ?thesis
    by (auto simp: page_posts_def)
qed

lemma owners_unique:
  "distinct (map u_id (users d)) \<Longrightarrow> length (owners d p) \<le> 1"
proof -
  assume dist: "distinct (map u_id (users d))"
  have "distinct (map u_id (owners d p))"
    unfolding owners_def using dist by (rule distinct_map_filter)
  moreover have "set (map u_id (owners d p)) \<subseteq> {p_user_id p}"
    by (auto simp: owners_def)
  ultimately have "length (map u_id (owners d p)) \<le> card {p_user_id p}"
    by (metis card_mono distinct_card finite.emptyI finite.insertI)
  then show ?thesis by simp
qed

lemma concat_if_filter:
  "concat (map (\<lambda>x. if P x then [f x] else []) xs) = map f (filter P xs)"
  by (induction xs) auto

lemma length_concat_eq:
  "(\<And>x. x \<in> set xs \<Longrightarrow> length (f x) = 1) \<Longrightarrow> length (concat (map f xs)) = length xs"
  by (induction xs) auto

lemma length_all_rows:
  assumes "distinct (map u_id (users d))"
  shows "length (all_rows d) = length (posts d)"
  unfolding all_rows_def
proof (rule length_concat_eq)
  fix p
  from assms have "length (owners d p) \<le> 1" by (rule owners_unique)
  then show "length (case owners d p of [] \<Rightarrow> [view d p None]
       | a # list \<Rightarrow> map (\<lambda>u. view d p (Some (u_username u))) (a # list)) = 1"
    by (cases "owners d p") auto
qed

lemma length_order_rows [simp]: "length (order_rows ob rows) = length rows"
  by (cases ob) (simp_all add: order_rows_def)

lemma tagged_rows_filter:
  "tagged_rows d ids =
     map (\<lambda>p. view d p (Some (u_username (hd (owners d p)))))
       (filter (\<lambda>p. having_all d ids p \<and> owners d p \<noteq> []) (posts d))"
  unfolding tagged_rows_def by (rule concat_if_filter)

lemma length_tagged_rows: "length (tagged_rows d ids) \<le> tagged_count d ids"
proof -
  have "filter (\<lambda>p. having_all d ids p \<and> owners d p \<noteq> []) (posts d)
      = filter (\<lambda>p. owners d p \<noteq> []) (filter (having_all d ids) (posts d))"
    by (simp add: conj_commute)
  then have "length (tagged_rows d ids)
      = length (filter (\<lambda>p. owners d p \<noteq> []) (filter (having_all d ids) (posts d)))"
    by (simp only: tagged_rows_filter length_map)
  also have "\<dots> \<le> length (filter (having_all d ids) (posts d))"
    by (rule length_filter_le)
  finally show ?thesis by (simp add: tagged_count_def)
qed

lemma length_search_rows:
  assumes "distinct (map u_id (users d))" "search d tq sq pg = Inr r"
  shows "length (search_rows d tq sq) \<le> r_totalCount r"
  using assms
  by (auto simp: search_def search_rows_def Let_def length_all_rows length_tagged_rows
      split: if_splits option.splits)

lemma length_search_rows_eq:
  assumes "distinct (map u_id (users d))" "\<forall>q\<in>set (posts d). owners d q \<noteq> []"
    and "search d tq sq pg = Inr r"
  shows "length (search_rows d tq sq) = r_totalCount r"
proof -
  have "filter (\<lambda>p. having_all d ids p \<and> owners d p \<noteq> []) (posts d)
      = filter (having_all d ids) (posts d)" for ids
    using assms(2) by (intro filter_cong) auto
  then have "length (tagged_rows d ids) = tagged_count d ids" for ids
    by (simp only: tagged_rows_filter tagged_count_def length_map)
  with assms(1,3) show ?thesis
    by (auto simp: search_def search_rows_def Let_def length_all_rows
        split: if_splits option.splits)
qed

lemma pages_upto:
  assumes "(int n - 1) * 12 < 2 ^ 53"
  shows "concat (map (page_posts d tq sq) [1..<Suc n])
     = map (with_tags d) (take (n * page_limit) (search_rows d tq sq))"
  using assms
proof (induction n)
  case 0
  then show ?case by simp
next
  case (Suc n)
  let ?rows = "search_rows d tq sq"
  from Suc.prems have "(int n - 1) * 12 < 2 ^ 53" by simp
  then have ih: "concat (map (page_posts d tq sq) [1..<Suc n])
      = map (with_tags d) (take (n * page_limit) ?rows)"
    by (rule Suc.IH)
  have pg: "page_posts d tq sq (Suc n)
      = map (with_tags d) (take page_limit (drop (n * page_limit) ?rows))"
    using page_posts_eq [OF _ Suc.prems, of d tq sq] by simp
  have "concat (map (page_posts d tq sq) [1..<Suc (Suc n)])
      = concat (map (page_posts d tq sq) [1..<Suc n]) @ page_posts d tq sq (Suc n)"
    by simp
  also have "\<dots> = map (with_tags d) (take (n * page_limit) ?rows)
      @ map (with_tags d) (take page_limit (drop (n * page_limit) ?rows))"
    by (simp only: ih pg)
  also have "\<dots> = map (with_tags d) (take (n * page_limit + page_limit) ?rows)"
    by (simp only: take_add map_append)
  finally show ?case by (simp add: add.commute)
qed

lemma pages_concat:
  assumes "distinct (map u_id (users d))" "length (posts d) < 2 ^ 53"
    and "search d tq sq pg = Inr r"
  shows "concat (map (page_posts d tq sq) [1..<Suc (r_totalPages r)])
           = map (with_tags d) (search_rows d tq sq)"
proof -
  let ?rows = "search_rows d tq sq"
  have tp: "r_totalPages r = total_pages (r_totalCount r)"
    using assms(3) by (rule search_result_total(1))
  have "r_totalCount r \<le> length (posts d)"
    using assms(3) by (rule search_result_total(2))
  with assms(2) have "r_totalCount r < 2 ^ 53" by simp
  then have ex: "(int (r_totalPages r) - 1) * 12 < 2 ^ 53"
    using exact_page_nat [of "r_totalPages r" "r_totalCount r"] tp by simp
  have "length ?rows \<le> r_totalPages r * page_limit"
    using length_search_rows [OF assms(1,3)] total_pages_cover [of "r_totalCount r"] tp
    by simp
  then have "take (r_totalPages r * page_limit) ?rows = ?rows" by simp
  then show ?thesis by (simp only: pages_upto [OF ex])
qed

lemma all_rows_ids:
  assumes "distinct (map u_id (users d))"
  shows "map v_id (all_rows d) = map p_id (posts d)"
proof -
  have one: "map v_id (case owners d p of [] \<Rightarrow> [view d p None]
       | a # list \<Rightarrow> map (\<lambda>u. view d p (Some (u_username u))) (a # list)) = [p_id p]" for p
  proof -
    from assms have "length (owners d p) \<le> 1" by (rule owners_unique)
    then show ?thesis by (cases "owners d p") (auto simp: view_def)
  qed
  have "map v_id (all_rows d) = concat (map (\<lambda>p. [p_id p]) (posts d))"
    unfolding all_rows_def by (simp add: map_concat comp_def one)
  then show ?thesis by simp
qed

lemma tagged_rows_ids:
  "map v_id (tagged_rows d ids) =
     map p_id (filter (\<lambda>p. having_all d ids p \<and> owners d p \<noteq> []) (posts d))"
  by (simp add: tagged_rows_filter comp_def view_def)

lemma mset_order_rows [simp]: "mset (order_rows ob rows) = mset rows"
  by (cases ob) (simp_all add: order_rows_def)

lemma set_order_rows [simp]: "set (order_rows ob rows) = set rows"
  by (cases ob) (simp_all add: order_rows_def)

lemma search_rows_distinct:
  assumes "distinct (map u_id (users d))" "distinct (map p_id (posts d))"
  shows "distinct (map v_id (search_rows d tq sq))"
proof -
  have d1: "distinct (map v_id (all_rows d))"
    using assms by (simp add: all_rows_ids)
  have d2: "distinct (map v_id (tagged_rows d ids))" for ids
    using assms(2) by (simp add: tagged_rows_ids distinct_map_filter)
  have "distinct (map v_id (order_rows ob rows)) = distinct (map v_id rows)" for ob rows
    by (metis mset_order_rows mset_map mset_eq_imp_distinct_iff)
  with d1 d2 show ?thesis
    by (simp add: search_rows_def Let_def)
qed

lemma v_id_with_tags [simp]: "v_id (with_tags d r) = v_id r"
  by (simp add: with_tags_def)

lemma with_tags_sorted:
  "(case sort_of sq of
      CreatedAsc \<Rightarrow> sorted_wrt (\<lambda>a b. v_created_at a \<le> v_created_at b)
    | LikesDesc \<Rightarrow> sorted_wrt (\<lambda>a b. v_likes_count b \<le> v_likes_count a)
    | CreatedDesc \<Rightarrow> sorted_wrt (\<lambda>a b. v_created_at b \<le> v_created_at a))
     (map (with_tags d) (search_rows d tq sq))"
  using search_rows_sorted [of sq d tq]
  by (cases "sort_of sq") (simp_all add: sorted_wrt_map with_tags_def)

text \<open>
  Claim C5. The hypotheses are the primary keys of \<^verbatim>\<open>users\<close> and \<^verbatim>\<open>posts\<close>, and the
  range in which the route's numbers are exact: fewer than \<open>2 ^ 53\<close> posts, and a page
  \<open>p\<close> whose offset \<open>(p - 1) * 12\<close> is below \<open>2 ^ 53\<close>. Then the search returns a
  result; the page is floored to 1 (\<open>p\<close> and \<open>max 1 p\<close> give the same result); the posts
  are the 12 rows at offset \<open>(max 1 p - 1) * 12\<close> of the full ordered result
  \<^const>\<open>search_rows\<close>; the total is the same in the result of every page parameter, is
  not smaller than the number of rows of the full result, and is that number when every
  post has an owner row (the count query does not join \<^verbatim>\<open>users\<close>, the posts query
  does); the pages 1 to \<^verbatim>\<open>totalPages\<close>, concatenated in order, are the full ordered
  result, they are ordered by the key that the \<^verbatim>\<open>sort\<close> parameter selects, and no post
  occurs twice in them. Rows with equal keys are in the one order the model gives them
  (scan order), the same for the query of every page.
\<close>

theorem search_pagination:
  assumes "distinct (map u_id (users d))" "distinct (map p_id (posts d))"
    and "length (posts d) < 2 ^ 53" and "(p - 1) * 12 < 2 ^ 53"
  shows "\<exists>r. search d tq sq (Num p) = Inr r \<and>
           search d tq sq (Num (max 1 p)) = Inr r \<and>
           r_posts r = map (with_tags d)
             (take 12 (drop (nat ((max 1 p - 1) * 12)) (search_rows d tq sq))) \<and>
           (\<forall>p'. (p' - 1) * 12 < 2 ^ 53 \<longrightarrow>
              (\<exists>r'. search d tq sq (Num p') = Inr r' \<and> r_totalCount r' = r_totalCount r)) \<and>
           (\<forall>pg r'. search d tq sq pg = Inr r' \<longrightarrow> r_totalCount r' = r_totalCount r) \<and>
           length (search_rows d tq sq) \<le> r_totalCount r \<and>
           ((\<forall>q\<in>set (posts d). owners d q \<noteq> [])
              \<longrightarrow> r_totalCount r = length (search_rows d tq sq)) \<and>
           concat (map (page_posts d tq sq) [1..<Suc (r_totalPages r)])
             = map (with_tags d) (search_rows d tq sq) \<and>
           (case sort_of sq of
              CreatedAsc \<Rightarrow> sorted_wrt (\<lambda>a b. v_created_at a \<le> v_created_at b)
            | LikesDesc \<Rightarrow> sorted_wrt (\<lambda>a b. v_likes_count b \<le> v_likes_count a)
            | CreatedDesc \<Rightarrow> sorted_wrt (\<lambda>a b. v_created_at b \<le> v_created_at a))
             (concat (map (page_posts d tq sq) [1..<Suc (r_totalPages r)])) \<and>
           distinct (map v_id (concat (map (page_posts d tq sq) [1..<Suc (r_totalPages r)])))"
proof -
  from search_exact_page [OF assms(4), of d tq sq]
  obtain r where r: "search d tq sq (Num p) = Inr r"
    and rp: "r_posts r = map (with_tags d)
        (take page_limit (drop (nat ((max 1 p - 1) * 12)) (search_rows d tq sq)))"
    by blast
  have fl: "search d tq sq (Num (max 1 p)) = Inr r"
    using r search_floor [of d tq sq p] by simp
  have tc: "r_totalCount r' = r_totalCount r" if "search d tq sq pg = Inr r'" for pg r'
    using r that by (rule search_result_total(3))
  have tc': "\<exists>r'. search d tq sq (Num p') = Inr r' \<and> r_totalCount r' = r_totalCount r"
    if "(p' - 1) * 12 < 2 ^ 53" for p'
    using search_exact_page [OF that, of d tq sq] tc by blast
  have cc: "concat (map (page_posts d tq sq) [1..<Suc (r_totalPages r)])
             = map (with_tags d) (search_rows d tq sq)"
    using assms(1,3) r by (rule pages_concat)
  have "distinct (map v_id (map (with_tags d) (search_rows d tq sq)))"
    using search_rows_distinct [OF assms(1,2)] by (simp add: comp_def)
  then have dd: "distinct (map v_id (concat (map (page_posts d tq sq)
      [1..<Suc (r_totalPages r)])))"
    by (simp only: cc)
  have le: "length (search_rows d tq sq) \<le> r_totalCount r"
    using assms(1) r by (rule length_search_rows)
  have eq: "(\<forall>q\<in>set (posts d). owners d q \<noteq> [])
      \<longrightarrow> r_totalCount r = length (search_rows d tq sq)"
    using length_search_rows_eq [OF assms(1) _ r] by simp
  have rp': "r_posts r = map (with_tags d)
        (take 12 (drop (nat ((max 1 p - 1) * 12)) (search_rows d tq sq)))"
    using rp by (simp add: page_limit_def)
  show ?thesis
  proof (rule exI [of _ r], intro conjI)
    show "search d tq sq (Num p) = Inr r" by (rule r)
    show "search d tq sq (Num (max 1 p)) = Inr r" by (rule fl)
    show "r_posts r = map (with_tags d)
        (take 12 (drop (nat ((max 1 p - 1) * 12)) (search_rows d tq sq)))"
      by (rule rp')
    show "\<forall>p'. (p' - 1) * 12 < 2 ^ 53 \<longrightarrow>
        (\<exists>r'. search d tq sq (Num p') = Inr r' \<and> r_totalCount r' = r_totalCount r)"
      using tc' by blast
    show "\<forall>pg r'. search d tq sq pg = Inr r' \<longrightarrow> r_totalCount r' = r_totalCount r"
      using tc by blast
    show "length (search_rows d tq sq) \<le> r_totalCount r" by (rule le)
    show "(\<forall>q\<in>set (posts d). owners d q \<noteq> [])
      \<longrightarrow> r_totalCount r = length (search_rows d tq sq)"
      by (rule eq)
    show "concat (map (page_posts d tq sq) [1..<Suc (r_totalPages r)])
             = map (with_tags d) (search_rows d tq sq)"
      by (rule cc)
    show "(case sort_of sq of
              CreatedAsc \<Rightarrow> sorted_wrt (\<lambda>a b. v_created_at a \<le> v_created_at b)
            | LikesDesc \<Rightarrow> sorted_wrt (\<lambda>a b. v_likes_count b \<le> v_likes_count a)
            | CreatedDesc \<Rightarrow> sorted_wrt (\<lambda>a b. v_created_at b \<le> v_created_at a))
             (concat (map (page_posts d tq sq) [1..<Suc (r_totalPages r)]))"
      by (simp only: cc with_tags_sorted)
    show "distinct (map v_id (concat (map (page_posts d tq sq) [1..<Suc (r_totalPages r)])))"
      by (rule dd)
  qed
qed

theorem search_pagination_witness:
  "distinct (map u_id (users many_db)) \<and> distinct (map p_id (posts many_db)) \<and>
   length (posts many_db) < 2 ^ 53 \<and> (2 - 1) * 12 < (2::int) ^ 53 \<and>
   map v_id (page_posts many_db (Some ''cat'') None 1)
     = [13, 12, 11, 10, 9, 8, 7, 6, 5, 4, 3, 2] \<and>
   map v_id (page_posts many_db (Some ''cat'') None 2) = [1] \<and>
   concat (map (page_posts many_db (Some ''cat'') None) [1..<Suc 2])
     = map (with_tags many_db) (search_rows many_db (Some ''cat'') None) \<and>
   sorted_wrt (\<lambda>a b. v_created_at b \<le> v_created_at a)
     (concat (map (page_posts many_db (Some ''cat'') None) [1..<Suc 2]))"
proof -
  have h1: "distinct (map u_id (users many_db))" by (simp add: many_db_def)
  have h2: "distinct (map p_id (posts many_db))" by code_simp
  have h3: "length (posts many_db) < 2 ^ 53" by (simp add: many_db_def)
  have h4: "(2 - 1) * 12 < (2::int) ^ 53" by simp
  have e1: "map v_id (page_posts many_db (Some ''cat'') None 1)
     = [13, 12, 11, 10, 9, 8, 7, 6, 5, 4, 3, 2]"
    by code_simp
  have e2: "map v_id (page_posts many_db (Some ''cat'') None 2) = [1]" by code_simp
  have tp: "(case search many_db (Some ''cat'') None (Num 2) of
      Inl e \<Rightarrow> (0, 0) | Inr r \<Rightarrow> (r_totalCount r, r_totalPages r)) = (13, 2)"
    by code_simp
  have so: "sort_of None = CreatedDesc" by (simp add: sort_of_def)
  from search_pagination [OF h1 h2 h3 h4, of "Some ''cat''" None]
  obtain r where r: "search many_db (Some ''cat'') None (Num 2) = Inr r"
    and cc: "concat (map (page_posts many_db (Some ''cat'') None) [1..<Suc (r_totalPages r)])
      = map (with_tags many_db) (search_rows many_db (Some ''cat'') None)"
    and ss: "(case sort_of None of
              CreatedAsc \<Rightarrow> sorted_wrt (\<lambda>a b. v_created_at a \<le> v_created_at b)
            | LikesDesc \<Rightarrow> sorted_wrt (\<lambda>a b. v_likes_count b \<le> v_likes_count a)
            | CreatedDesc \<Rightarrow> sorted_wrt (\<lambda>a b. v_created_at b \<le> v_created_at a))
             (concat (map (page_posts many_db (Some ''cat'') None)
                [1..<Suc (r_totalPages r)]))"
    by blast
  from tp r have t2: "r_totalPages r = 2" by simp
  from cc ss show ?thesis
    unfolding t2 so by (simp only: h1 h2 h3 h4 e1 e2 order_by.case simp_thms)
qed

subsection \<open>Search: posts that carry every requested tag\<close>

lemma set_post_tag_names:
  "set (post_tag_names d pid) = {t_name t |t. t \<in> set (tags d) \<and> (pid, t_id t) \<in> set (post_tags d)}"
  by (auto simp: post_tag_names_def)

lemma lookup_ids_full:
  assumes dn: "distinct (map t_name (tags d))"
    and names: "distinct names" "set names \<subseteq> set (map t_name (tags d))"
  shows "length (lookup_ids d names) = length names"
proof -
  define F where "F = filter (\<lambda>t. t_name t \<in> set names) (tags d)"
  have "distinct (map t_name F)"
    unfolding F_def using dn by (rule distinct_map_filter)
  then have "length F = card (set (map t_name F))"
    using distinct_card [of "map t_name F"] by simp
  also have "set (map t_name F) = set names"
    using names(2) by (auto simp: F_def)
  also have "card (set names) = length names"
    using names(1) by (rule distinct_card)
  finally show ?thesis by (simp add: lookup_ids_def F_def)
qed

lemma distinct_lookup_ids:
  "distinct (map t_id (tags d)) \<Longrightarrow> distinct (lookup_ids d names)"
  unfolding lookup_ids_def by (rule distinct_map_filter)

lemma having_all_iff:
  assumes "distinct ids" "ids \<noteq> []"
  shows "having_all d ids p \<longleftrightarrow> set ids \<subseteq> {tid. (p_id p, tid) \<in> set (post_tags d)}"
proof -
  let ?T = "{tid. (p_id p, tid) \<in> set (post_tags d)}"
  have sh: "set (hits d ids p) = ?T \<inter> set ids"
    by (force simp: hits_def)
  have len: "length (remdups (hits d ids p)) = card (?T \<inter> set ids)"
    by (simp add: length_remdups_card_conv sh)
  have li: "length ids = card (set ids)"
    using assms(1) by (simp add: distinct_card)
  show ?thesis
  proof
    assume "having_all d ids p"
    then have "card (?T \<inter> set ids) = card (set ids)"
      by (simp add: having_all_def len li)
    then have "?T \<inter> set ids = set ids"
      by (intro card_subset_eq) auto
    then show "set ids \<subseteq> ?T" by blast
  next
    assume sub: "set ids \<subseteq> ?T"
    then have eq: "?T \<inter> set ids = set ids" by blast
    with assms(2) sh have "hits d ids p \<noteq> []" by (metis set_empty)
    with eq show "having_all d ids p"
      by (simp add: having_all_def len li)
  qed
qed

lemma ids_cover_iff:
  assumes dn: "distinct (map t_name (tags d))"
    and sub: "set names \<subseteq> set (map t_name (tags d))"
  shows "set (lookup_ids d names) \<subseteq> {tid. (pid, tid) \<in> set (post_tags d)}
           \<longleftrightarrow> set names \<subseteq> set (post_tag_names d pid)"
proof
  assume a: "set (lookup_ids d names) \<subseteq> {tid. (pid, tid) \<in> set (post_tags d)}"
  show "set names \<subseteq> set (post_tag_names d pid)"
  proof
    fix n assume n: "n \<in> set names"
    with sub obtain t where t: "t \<in> set (tags d)" "t_name t = n" by auto
    with n have "t_id t \<in> set (lookup_ids d names)" by (auto simp: lookup_ids_def)
    with a have "(pid, t_id t) \<in> set (post_tags d)" by blast
    with t show "n \<in> set (post_tag_names d pid)" by (auto simp: set_post_tag_names)
  qed
next
  assume a: "set names \<subseteq> set (post_tag_names d pid)"
  have inj: "inj_on t_name (set (tags d))"
    using dn by (simp add: distinct_map)
  show "set (lookup_ids d names) \<subseteq> {tid. (pid, tid) \<in> set (post_tags d)}"
  proof
    fix i assume "i \<in> set (lookup_ids d names)"
    then obtain t where t: "t \<in> set (tags d)" "t_id t = i" "t_name t \<in> set names"
      by (auto simp: lookup_ids_def)
    with a have "t_name t \<in> set (post_tag_names d pid)" by blast
    then obtain t' where t': "t' \<in> set (tags d)" "t_name t' = t_name t"
        "(pid, t_id t') \<in> set (post_tags d)"
      by (auto simp: set_post_tag_names)
    with t inj have "t' = t" by (auto dest: inj_onD)
    with t t' show "i \<in> {tid. (pid, tid) \<in> set (post_tags d)}" by simp
  qed
qed

lemma having_all_lookup:
  assumes "distinct (map t_id (tags d))" "distinct (map t_name (tags d))"
    and "names \<noteq> []" "set names \<subseteq> set (map t_name (tags d))"
  shows "having_all d (lookup_ids d names) p \<longleftrightarrow> set names \<subseteq> set (post_tag_names d (p_id p))"
proof -
  from assms(3) obtain n where "n \<in> set names" by (cases names) auto
  with assms(4) obtain t where "t \<in> set (tags d)" "t_name t \<in> set names" by auto
  then have ne: "lookup_ids d names \<noteq> []"
    by (auto simp: lookup_ids_def filter_empty_conv)
  from assms(1) have "distinct (lookup_ids d names)" by (rule distinct_lookup_ids)
  with ne have "having_all d (lookup_ids d names) p
      \<longleftrightarrow> set (lookup_ids d names) \<subseteq> {tid. (p_id p, tid) \<in> set (post_tags d)}"
    by (intro having_all_iff)
  also have "\<dots> \<longleftrightarrow> set names \<subseteq> set (post_tag_names d (p_id p))"
    using assms(2,4) by (rule ids_cover_iff)
  finally show ?thesis .
qed

lemma search_rows_tagged:
  assumes "tagsQuery tq \<noteq> []" "length (lookup_ids d (normTags tq)) = length (normTags tq)"
  shows "search_rows d tq sq = order_rows (sort_of sq) (tagged_rows d (lookup_ids d (normTags tq)))"
  using assms by (simp add: search_rows_def Let_def)

lemma search_tagged_total:
  assumes "tagsQuery tq \<noteq> []" "length (lookup_ids d (normTags tq)) = length (normTags tq)"
    and "search d tq sq pg = Inr r"
  shows "r_totalCount r = tagged_count d (lookup_ids d (normTags tq))"
  using assms by (auto simp: search_def Let_def split: option.splits)

lemma page_subset:
  assumes "search d tq sq pg = Inr r" "v \<in> set (r_posts r)"
  shows "\<exists>v0 \<in> set (search_rows d tq sq). v = with_tags d v0"
proof -
  from search_result_rows [OF assms(1)] obtain off where
    "r_posts r = map (with_tags d) (take page_limit (drop off (search_rows d tq sq)))"
    by blast
  with assms(2)
  have "v \<in> with_tags d ` set (take page_limit (drop off (search_rows d tq sq)))"
    by (simp only: set_map)
  then obtain v0 where v0: "v0 \<in> set (take page_limit (drop off (search_rows d tq sq)))"
    and v: "v = with_tags d v0"
    by (rule imageE)
  from v0 have "v0 \<in> set (drop off (search_rows d tq sq))" by (rule in_set_takeD)
  then have "v0 \<in> set (search_rows d tq sq)" by (rule in_set_dropD)
  with v show ?thesis by blast
qed

text \<open>
  Claim C1 says that the returned posts are exactly the posts tagged with every requested
  tag. In the example store post 1 carries \<^verbatim>\<open>#cat\<close> and \<^verbatim>\<open>#dog\<close>; yet page 2 of the
  search for \<^verbatim>\<open>cat,dog\<close> returns no post (the result is cut into pages of 12, and the
  total says there is one match), and the search for \<^verbatim>\<open>cat,cat\<close>, whose names all
  resolve, returns no post either (the route compares the number of resolved rows with
  the number of names given, repeated names included).
\<close>

theorem search_contains_all_counterexample:
  "post_tag_names cats_db 1 = [''#cat'', ''#dog''] \<and>
   search cats_db (Some ''cat,dog'') None (Num 2)
      = Inr \<lparr>r_posts = [], r_totalCount = 1, r_totalPages = 1\<rparr> \<and>
   search cats_db (Some ''cat,cat'') None (Num 1)
      = Inr \<lparr>r_posts = [], r_totalCount = 0, r_totalPages = 1\<rparr>"
  by code_simp

text \<open>
  Claim C1 as the code has it. The store satisfies the keys of the schema and holds fewer
  than \<open>2 ^ 53\<close> posts, the offset \<open>(p - 1) * 12\<close> of the page is below \<open>2 ^ 53\<close> (the
  range in which the route's numbers are exact); the requested names, as the route
  normalises them, are not empty, are pairwise distinct and all have a row in
  \<^verbatim>\<open>tags\<close>. Then the search returns a result; the returned posts are a slice of 12, at
  the offset of the page, of the ordered matching rows \<^const>\<open>search_rows\<close>, and these
  rows are exactly the posts that carry every requested tag and whose owner has a row in
  \<^verbatim>\<open>users\<close> (the query joins \<^verbatim>\<open>users\<close>); every post on the page carries every
  requested tag (never only some of them); the posts of pages 1 to \<^verbatim>\<open>totalPages\<close>
  together are exactly those posts; and the total is the number of posts that carry every
  requested tag. What the route does with a repeated name is not part of this statement.
\<close>

theorem search_contains_all:
  assumes "schema_keys d"
    and "length (posts d) < 2 ^ 53" and "(p - 1) * 12 < 2 ^ 53"
    and "normTags tq \<noteq> []" and "distinct (normTags tq)"
    and "set (normTags tq) \<subseteq> set (map t_name (tags d))"
  shows "\<exists>r. search d tq sq (Num p) = Inr r \<and>
     r_posts r = map (with_tags d)
        (take 12 (drop (nat ((max 1 p - 1) * 12)) (search_rows d tq sq))) \<and>
     v_id ` set (search_rows d tq sq)
        = {p_id q |q. q \<in> set (posts d) \<and> owners d q \<noteq> [] \<and>
             set (normTags tq) \<subseteq> set (post_tag_names d (p_id q))} \<and>
     (\<forall>v\<in>set (r_posts r). set (normTags tq) \<subseteq> set (v_tags v)) \<and>
     v_id ` set (concat (map (page_posts d tq sq) [1..<Suc (r_totalPages r)]))
        = {p_id q |q. q \<in> set (posts d) \<and> owners d q \<noteq> [] \<and>
             set (normTags tq) \<subseteq> set (post_tag_names d (p_id q))} \<and>
     r_totalCount r
        = length (filter (\<lambda>q. set (normTags tq) \<subseteq> set (post_tag_names d (p_id q))) (posts d))"
proof -
  let ?names = "normTags tq"
  let ?ids = "lookup_ids d ?names"
  let ?M = "{p_id q |q. q \<in> set (posts d) \<and> owners d q \<noteq> [] \<and>
             set ?names \<subseteq> set (post_tag_names d (p_id q))}"
  from assms(1) have keys: "distinct (map u_id (users d))" "distinct (map t_id (tags d))"
      "distinct (map t_name (tags d))"
    by (simp_all add: schema_keys_def)
  from assms(4) have tqne: "tagsQuery tq \<noteq> []" by (auto simp: normTags_def)
  have len: "length ?ids = length ?names"
    using keys(3) assms(5,6) by (rule lookup_ids_full)
  have hv: "having_all d ?ids q \<longleftrightarrow> set ?names \<subseteq> set (post_tag_names d (p_id q))" for q
    using keys(2,3) assms(4,6) by (rule having_all_lookup)
  from search_exact_page [OF assms(3), of d tq sq]
  obtain r where r: "search d tq sq (Num p) = Inr r"
    and rp: "r_posts r = map (with_tags d)
        (take page_limit (drop (nat ((max 1 p - 1) * 12)) (search_rows d tq sq)))"
    by blast
  have rp': "r_posts r = map (with_tags d)
        (take 12 (drop (nat ((max 1 p - 1) * 12)) (search_rows d tq sq)))"
    using rp by (simp add: page_limit_def)
  have rows: "v_id ` set (search_rows d tq sq) = ?M"
  proof -
    have "v_id ` set (search_rows d tq sq) = set (map v_id (tagged_rows d ?ids))"
      by (simp add: search_rows_tagged [OF tqne len])
    also have "\<dots> = p_id ` {q \<in> set (posts d). having_all d ?ids q \<and> owners d q \<noteq> []}"
      by (simp only: tagged_rows_ids set_map set_filter)
    also have "\<dots> = ?M" unfolding hv by blast
    finally show ?thesis .
  qed
  have a: "\<forall>v\<in>set (r_posts r). set ?names \<subseteq> set (v_tags v)"
  proof
    fix v assume "v \<in> set (r_posts r)"
    with r obtain v0 where v0: "v0 \<in> set (search_rows d tq sq)" "v = with_tags d v0"
      using page_subset by blast
    then have "v_id v0 \<in> ?M" using rows by blast
    then have "set ?names \<subseteq> set (post_tag_names d (v_id v0))" by auto
    with v0 show "set ?names \<subseteq> set (v_tags v)" by (simp add: with_tags_def)
  qed
  have b: "v_id ` set (concat (map (page_posts d tq sq) [1..<Suc (r_totalPages r)])) = ?M"
  proof -
    have "concat (map (page_posts d tq sq) [1..<Suc (r_totalPages r)])
        = map (with_tags d) (search_rows d tq sq)"
      using keys(1) assms(2) r by (rule pages_concat)
    then have "v_id ` set (concat (map (page_posts d tq sq) [1..<Suc (r_totalPages r)]))
        = v_id ` set (map (with_tags d) (search_rows d tq sq))"
      by (rule arg_cong)
    also have "\<dots> = v_id ` set (search_rows d tq sq)"
      by (simp add: image_image)
    finally show ?thesis by (simp only: rows)
  qed
  have c: "r_totalCount r
        = length (filter (\<lambda>q. set ?names \<subseteq> set (post_tag_names d (p_id q))) (posts d))"
  proof -
    have "having_all d ?ids = (\<lambda>q. set ?names \<subseteq> set (post_tag_names d (p_id q)))"
      by (rule ext) (rule hv)
    with search_tagged_total [OF tqne len r] show ?thesis
      by (simp only: tagged_count_def)
  qed
  show ?thesis
  proof (rule exI [of _ r], intro conjI)
    show "search d tq sq (Num p) = Inr r" by (rule r)
    show "r_posts r = map (with_tags d)
        (take 12 (drop (nat ((max 1 p - 1) * 12)) (search_rows d tq sq)))"
      by (rule rp')
    show "v_id ` set (search_rows d tq sq) = ?M" by (rule rows)
    show "\<forall>v\<in>set (r_posts r). set ?names \<subseteq> set (v_tags v)" by (rule a)
    show "v_id ` set (concat (map (page_posts d tq sq) [1..<Suc (r_totalPages r)])) = ?M"
      by (rule b)
    show "r_totalCount r
        = length (filter (\<lambda>q. set ?names \<subseteq> set (post_tag_names d (p_id q))) (posts d))"
      by (rule c)
  qed
qed

theorem search_contains_all_witness:
  "schema_keys cats_db \<and> length (posts cats_db) < 2 ^ 53 \<and> (1 - 1) * 12 < (2::int) ^ 53 \<and>
   normTags (Some ''cat,dog'') = [''#cat'', ''#dog''] \<and>
   set (normTags (Some ''cat,dog'')) \<subseteq> set (map t_name (tags cats_db)) \<and>
   map v_id (search_rows cats_db (Some ''cat,dog'') None) = [1] \<and>
   length (filter (\<lambda>q. set (normTags (Some ''cat,dog''))
                          \<subseteq> set (post_tag_names cats_db (p_id q))) (posts cats_db)) = 1"
proof -
  have h1: "schema_keys cats_db" by (simp add: schema_keys_def cats_db_def)
  have hb: "length (posts cats_db) < 2 ^ 53" by (simp add: cats_db_def)
  have hp: "(1 - 1) * 12 < (2::int) ^ 53" by simp
  have n: "normTags (Some ''cat,dog'') = [''#cat'', ''#dog'']" by code_simp
  have h2: "normTags (Some ''cat,dog'') \<noteq> []" by (simp add: n)
  have h3: "distinct (normTags (Some ''cat,dog''))" by (simp add: n)
  have h4: "set (normTags (Some ''cat,dog'')) \<subseteq> set (map t_name (tags cats_db))"
    by (simp add: n cats_db_def)
  have e: "search cats_db (Some ''cat,dog'') None (Num 1)
     = Inr \<lparr>r_posts =
              [\<lparr>v_id = 1, v_user_id = 1, v_filename = ''a.png'', v_created_at = 100,
                v_username = Some ''bob'', v_likes_count = 0, v_tags = [''#cat'', ''#dog'']\<rparr>],
            r_totalCount = 1, r_totalPages = 1\<rparr>"
    by code_simp
  have rw: "map v_id (search_rows cats_db (Some ''cat,dog'') None) = [1]" by code_simp
  from search_contains_all [OF h1 hb hp h2 h3 h4, of None] e
  have "length (filter (\<lambda>q. set (normTags (Some ''cat,dog''))
                          \<subseteq> set (post_tag_names cats_db (p_id q))) (posts cats_db)) = 1"
    by auto
  with h1 hb hp n h4 rw show ?thesis by simp
qed

text \<open>
  Without tag names the search matches every post: the full result holds each post once,
  and the total is the number of posts.
\<close>

lemma search_no_tags:
  assumes "distinct (map u_id (users d))" "tagsQuery tq = []"
  shows "mset (map v_id (search_rows d tq sq)) = mset (map p_id (posts d))"
    and "search d tq sq pg = Inr r \<Longrightarrow> r_totalCount r = length (posts d)"
proof -
  have "mset (map v_id (search_rows d tq sq)) = mset (map v_id (all_rows d))"
    using assms(2) by (simp add: search_rows_def)
  then show "mset (map v_id (search_rows d tq sq)) = mset (map p_id (posts d))"
    using assms(1) by (simp only: all_rows_ids)
  show "search d tq sq pg = Inr r \<Longrightarrow> r_totalCount r = length (posts d)"
    using assms(2) by (auto simp: search_def Let_def split: option.splits)
qed

text \<open>
  Claim C3 says that a repeated name does not change the result, the names being
  deduplicated before they are resolved. The route does not deduplicate them: it resolves
  \<^verbatim>\<open>cat,cat\<close> to the one row of \<^verbatim>\<open>#cat\<close>, finds one identifier for two names and
  answers with the empty result, while \<^verbatim>\<open>cat\<close> alone finds both posts.
\<close>

theorem search_repeated_name:
  "search cats_db (Some ''cat,cat'') None (Num 1)
     = Inr \<lparr>r_posts = [], r_totalCount = 0, r_totalPages = 1\<rparr> \<and>
   search cats_db (Some ''cat'') None (Num 1)
     = Inr \<lparr>r_posts =
              [\<lparr>v_id = 2, v_user_id = 1, v_filename = ''b.png'', v_created_at = 200,
                v_username = Some ''bob'', v_likes_count = 0, v_tags = [''#cat'']\<rparr>,
               \<lparr>v_id = 1, v_user_id = 1, v_filename = ''a.png'', v_created_at = 100,
                v_username = Some ''bob'', v_likes_count = 0, v_tags = [''#cat'', ''#dog'']\<rparr>],
            r_totalCount = 2, r_totalPages = 1\<rparr>"
  by code_simp

subsection \<open>Editing: the tags of a post are replaced\<close>

lemma tag_row_eta: "\<lparr>t_id = t_id r, t_name = t_name r\<rparr> = (r::tag_row)"
  by (cases r) simp

lemma fold_max_ge: "a \<le> fold max xs (a::nat)"
  by (induction xs arbitrary: a) (auto intro: order_trans [OF max.cobounded2])

lemma fold_max_mem: "x \<in> set xs \<Longrightarrow> x \<le> fold max xs (a::nat)"
proof (induction xs arbitrary: a)
  case Nil
  then show ?case by simp
next
  case (Cons y ys)
  show ?case
  proof (cases "x = y")
    case True
    have "max y a \<le> fold max ys (max y a)" by (rule fold_max_ge)
    with True show ?thesis by simp
  next
    case False
    with Cons show ?thesis by simp
  qed
qed

lemma next_tag_id_fresh: "next_tag_id d \<notin> set (map t_id (tags d))"
proof
  assume "next_tag_id d \<in> set (map t_id (tags d))"
  then have "next_tag_id d \<le> fold max (map t_id (tags d)) 0" by (rule fold_max_mem)
  then show False by (simp add: next_tag_id_def)
qed

lemma insert_tag_eq:
  "insert_tag n d = (next_tag_id d, d\<lparr>tags := tags d @ [\<lparr>t_id = next_tag_id d, t_name = n\<rparr>]\<rparr>)"
  by (simp add: insert_tag_def Let_def)

lemma ensureTagIds_frame:
  "ensureTagIds ts d = (ids, d') \<Longrightarrow>
     users d' = users d \<and> posts d' = posts d \<and> post_tags d' = post_tags d \<and>
     likes d' = likes d \<and> length ids = length ts \<and> set (tags d) \<subseteq> set (tags d')"
proof (induction ts arbitrary: d ids d')
  case Nil
  then show ?case by simp
next
  case (Cons t ts)
  show ?case
  proof (cases "tag_by_name d t")
    case None
    obtain ids1 d1 where r: "ensureTagIds ts (snd (insert_tag t d)) = (ids1, d1)"
      by (cases "ensureTagIds ts (snd (insert_tag t d))")
    from Cons.IH [OF r] Cons.prems None r show ?thesis
      by (auto simp: insert_tag_eq)
  next
    case (Some row)
    obtain ids1 d1 where r: "ensureTagIds ts d = (ids1, d1)"
      by (cases "ensureTagIds ts d")
    from Cons.IH [OF r] Cons.prems Some r show ?thesis
      by auto
  qed
qed

lemma ensureTagIds_ids_distinct:
  "ensureTagIds ts d = (ids, d') \<Longrightarrow> distinct (map t_id (tags d))
     \<Longrightarrow> distinct (map t_id (tags d'))"
proof (induction ts arbitrary: d ids d')
  case Nil
  then show ?case by simp
next
  case (Cons t ts)
  show ?case
  proof (cases "tag_by_name d t")
    case None
    obtain ids1 d1 where r: "ensureTagIds ts (snd (insert_tag t d)) = (ids1, d1)"
      by (cases "ensureTagIds ts (snd (insert_tag t d))")
    have "distinct (map t_id (tags (snd (insert_tag t d))))"
      using Cons.prems(2) next_tag_id_fresh [of d] by (simp add: insert_tag_eq)
    from Cons.IH [OF r this] Cons.prems None r show ?thesis
      by (auto simp: insert_tag_eq)
  next
    case (Some row)
    obtain ids1 d1 where r: "ensureTagIds ts d = (ids1, d1)"
      by (cases "ensureTagIds ts d")
    from Cons.IH [OF r Cons.prems(2)] Cons.prems Some r show ?thesis
      by auto
  qed
qed

lemma ensureTagIds_rows:
  "ensureTagIds ts d = (ids, d') \<Longrightarrow>
     list_all2 (\<lambda>i n. \<lparr>t_id = i, t_name = n\<rparr> \<in> set (tags d')) ids ts"
proof (induction ts arbitrary: d ids d')
  case Nil
  then show ?case by simp
next
  case (Cons t ts)
  show ?case
  proof (cases "tag_by_name d t")
    case None
    let ?d1 = "snd (insert_tag t d)"
    obtain ids1 d1 where r: "ensureTagIds ts ?d1 = (ids1, d1)"
      by (cases "ensureTagIds ts ?d1")
    have "\<lparr>t_id = next_tag_id d, t_name = t\<rparr> \<in> set (tags ?d1)"
      by (simp add: insert_tag_eq)
    moreover have "set (tags ?d1) \<subseteq> set (tags d1)"
      using ensureTagIds_frame [OF r] by simp
    ultimately have "\<lparr>t_id = next_tag_id d, t_name = t\<rparr> \<in> set (tags d1)" by blast
    with Cons.IH [OF r] Cons.prems None r show ?thesis
      by (auto simp: insert_tag_eq)
  next
    case (Some row)
    obtain ids1 d1 where r: "ensureTagIds ts d = (ids1, d1)"
      by (cases "ensureTagIds ts d")
    from Some have "row \<in> set (tags d)" "t_name row = t" by (auto dest: tag_by_name_Some)
    then have "\<lparr>t_id = t_id row, t_name = t\<rparr> = row" "row \<in> set (tags d)"
      using tag_row_eta [of row] by auto
    then have "\<lparr>t_id = t_id row, t_name = t\<rparr> \<in> set (tags d)"
      by (simp only:)
    moreover have "set (tags d) \<subseteq> set (tags d1)"
      using ensureTagIds_frame [OF r] by simp
    ultimately have "\<lparr>t_id = t_id row, t_name = t\<rparr> \<in> set (tags d1)" by blast
    with Cons.IH [OF r] Cons.prems Some r show ?thesis
      by auto
  qed
qed

lemma ensureTagIds_names:
  assumes "ensureTagIds ts d = (ids, d')" "distinct (map t_id (tags d))"
  shows "{t_name t |t. t \<in> set (tags d') \<and> t_id t \<in> set ids} = set ts"
proof -
  have la: "list_all2 (\<lambda>i n. \<lparr>t_id = i, t_name = n\<rparr> \<in> set (tags d')) ids ts"
    using assms(1) by (rule ensureTagIds_rows)
  have inj: "inj_on t_id (set (tags d'))"
    using ensureTagIds_ids_distinct [OF assms] by (simp add: distinct_map)
  show ?thesis
  proof (intro equalityI subsetI)
    fix n assume "n \<in> {t_name t |t. t \<in> set (tags d') \<and> t_id t \<in> set ids}"
    then obtain t where t: "t \<in> set (tags d')" "t_id t \<in> set ids" "n = t_name t" by blast
    from t(2) obtain k where k: "k < length ids" "ids ! k = t_id t"
      by (auto simp: in_set_conv_nth)
    with la have "\<lparr>t_id = t_id t, t_name = ts ! k\<rparr> \<in> set (tags d')" "k < length ts"
      by (auto simp: list_all2_conv_all_nth)
    with t(1) have "\<lparr>t_id = t_id t, t_name = ts ! k\<rparr> = t"
      using inj_onD [OF inj, of "\<lparr>t_id = t_id t, t_name = ts ! k\<rparr>" t] by simp
    then have "t_name t = ts ! k" by (metis tag_row.select_convs(2))
    with \<open>k < length ts\<close> t(3) show "n \<in> set ts" by simp
  next
    fix n assume "n \<in> set ts"
    then obtain k where k: "k < length ts" "ts ! k = n" by (auto simp: in_set_conv_nth)
    with la have "\<lparr>t_id = ids ! k, t_name = n\<rparr> \<in> set (tags d')" "k < length ids"
      by (auto simp: list_all2_conv_all_nth)
    then show "n \<in> {t_name t |t. t \<in> set (tags d') \<and> t_id t \<in> set ids}"
      by force
  qed
qed

lemma attach_frame:
  "tags (attachTagsToPost pid ids d) = tags d \<and> users (attachTagsToPost pid ids d) = users d \<and>
   posts (attachTagsToPost pid ids d) = posts d \<and> likes (attachTagsToPost pid ids d) = likes d"
  by (induction ids arbitrary: d) auto

lemma attach_post_tags:
  "set (post_tags (attachTagsToPost pid ids d)) = set (post_tags d) \<union> {(pid, i) |i. i \<in> set ids}"
  by (induction ids arbitrary: d) auto

lemma set_tags_names:
  assumes "distinct (map t_id (tags d))"
  shows "set (post_tag_names (set_tags pid text d) pid) = set (parseTags text)"
proof -
  let ?d1 = "delete_post_tags pid d"
  obtain ids d2 where e: "ensureTagIds (parseTags text) ?d1 = (ids, d2)"
    by (cases "ensureTagIds (parseTags text) ?d1")
  have st: "set_tags pid text d = attachTagsToPost pid ids d2"
    using e by (simp add: set_tags_def Let_def)
  have d1: "distinct (map t_id (tags ?d1))"
    using assms by (simp add: delete_post_tags_def)
  have pt2: "post_tags d2 = filter (\<lambda>pt. fst pt \<noteq> pid) (post_tags d)"
    using ensureTagIds_frame [OF e] by (simp add: delete_post_tags_def)
  have "{tid. (pid, tid) \<in> set (post_tags (set_tags pid text d))} = set ids"
    by (auto simp: st attach_post_tags pt2)
  then have "set (post_tag_names (set_tags pid text d) pid)
      = {t_name t |t. t \<in> set (tags d2) \<and> t_id t \<in> set ids}"
    by (auto simp: set_post_tag_names st attach_frame)
  also have "\<dots> = set (parseTags text)"
    using e d1 by (rule ensureTagIds_names)
  finally show ?thesis .
qed

lemma set_tags_vocabulary: "set (tags d) \<subseteq> set (tags (set_tags pid text d))"
proof -
  let ?d1 = "delete_post_tags pid d"
  obtain ids d2 where e: "ensureTagIds (parseTags text) ?d1 = (ids, d2)"
    by (cases "ensureTagIds (parseTags text) ?d1")
  have st: "set_tags pid text d = attachTagsToPost pid ids d2"
    using e by (simp add: set_tags_def Let_def)
  from ensureTagIds_frame [OF e] show ?thesis
    by (simp add: st attach_frame delete_post_tags_def)
qed

lemma edit_post_Inr:
  assumes "edit_post session pid bt d = Inr d'"
  shows "\<exists>uid post. session = Some uid \<and> find (\<lambda>p. p_id p = pid) (posts d) = Some post \<and>
           p_id post = pid \<and> p_user_id post = uid \<and>
           d' = set_tags pid (if blank bt then join_sp (post_tag_names d pid) else or_empty bt) d"
proof -
  from assms obtain uid where s: "session = Some uid"
    by (cases session) (auto simp: edit_post_def)
  from assms s obtain post where f: "find (\<lambda>p. p_id p = pid) (posts d) = Some post"
    by (cases "find (\<lambda>p. p_id p = pid) (posts d)") (auto simp: edit_post_def)
  then have pid: "p_id post = pid" by (auto simp: find_Some_iff)
  from assms s f have own: "p_user_id post = uid"
    by (auto simp: edit_post_def split: if_splits)
  from assms s f own have "d' = set_tags (p_id post)
      (if blank bt then join_sp (post_tag_names d (p_id post)) else or_empty bt) d"
    by (simp add: edit_post_def Let_def)
  with s f own pid show ?thesis by simp
qed

text \<open>
  Claim C4: after an edit that succeeds (the session user owns the post) with a tag text
  that is not blank, the names read back for the post are exactly the names that
  \<^const>\<open>parseTags\<close> makes of the text, so every tag attached before and not in the new
  list is detached; and every row of the vocabulary is still there. The store satisfies
  the keys of the schema.
\<close>

theorem edit_replaces_tags:
  assumes "schema_keys d"
    and "edit_post session pid (Some text) d = Inr d'"
    and "\<not> blank (Some text)"
  shows "set (post_tag_names d' pid) = set (parseTags text) \<and>
         set (tags d) \<subseteq> set (tags d')"
proof -
  from assms(1) have k: "distinct (map t_id (tags d))" by (simp add: schema_keys_def)
  from edit_post_Inr [OF assms(2)] assms(3)
  have d': "d' = set_tags pid text d" by (auto simp: or_empty_def)
  show ?thesis
    unfolding d' using set_tags_names [OF k] set_tags_vocabulary by blast
qed

theorem edit_replaces_tags_witness:
  "schema_keys cats_db \<and> \<not> blank (Some ''#bird'') \<and>
   edit_post (Some 1) 1 (Some ''#bird'') cats_db = Inr birds_db \<and>
   set (post_tag_names birds_db 1) = set (parseTags ''#bird'') \<and>
   post_tag_names birds_db 1 = [''#bird'']"
proof -
  have h1: "schema_keys cats_db" by (simp add: schema_keys_def cats_db_def)
  have h2: "edit_post (Some 1) 1 (Some ''#bird'') cats_db = Inr birds_db" by code_simp
  have h3: "\<not> blank (Some ''#bird'')" by code_simp
  have n: "post_tag_names birds_db 1 = [''#bird'']" by code_simp
  from edit_replaces_tags [OF h1 h2 h3] h1 h2 h3 n show ?thesis by simp
qed

subsection \<open>Editing: a blank tag text keeps the tags\<close>

lemma split_ws_token: "\<forall>c\<in>set x. \<not> is_space c \<Longrightarrow> split_ws x = [x]"
  by (subst split_ws.simps) simp

lemma split_ws_cons:
  assumes "\<forall>c\<in>set x. \<not> is_space c" "rest \<noteq> []" "\<not> is_space (hd rest)"
  shows "split_ws (x @ CHR '' '' # rest) = x # split_ws rest"
proof -
  have sp: "is_space CHR '' ''" by (simp add: is_space_def)
  have t: "takeWhile (\<lambda>c. \<not> is_space c) (x @ CHR '' '' # rest) = x"
    using assms(1) sp by simp
  have r: "dropWhile (\<lambda>c. \<not> is_space c) (x @ CHR '' '' # rest) = CHR '' '' # rest"
    using assms(1) sp by simp
  have d: "dropWhile is_space rest = rest"
    using assms(2,3) by (cases rest) auto
  show ?thesis
    by (subst split_ws.simps) (simp add: t r d sp)
qed

lemma hd_join_sp: "x \<noteq> [] \<Longrightarrow> hd (join_sp (x # xs)) = hd x \<and> join_sp (x # xs) \<noteq> []"
  by (cases xs) auto

lemma split_ws_join_sp:
  assumes "\<forall>n\<in>set names. n \<noteq> [] \<and> (\<forall>c\<in>set n. \<not> is_space c)" "names \<noteq> []"
  shows "split_ws (join_sp names) = names"
  using assms
proof (induction names rule: join_sp.induct)
  case 1
  then show ?case by simp
next
  case (2 x)
  then show ?case by (simp add: split_ws_token)
next
  case (3 x y ys)
  from "3.prems" have y: "y \<noteq> []" "\<not> is_space (hd y)" by auto
  then have "join_sp (y # ys) \<noteq> []" "\<not> is_space (hd (join_sp (y # ys)))"
    using hd_join_sp [of y ys] by auto
  moreover from "3.prems" have "\<forall>c\<in>set x. \<not> is_space c" by simp
  ultimately have "split_ws (x @ CHR '' '' # join_sp (y # ys)) = x # split_ws (join_sp (y # ys))"
    by (intro split_ws_cons)
  moreover have "split_ws (join_sp (y # ys)) = y # ys"
    using "3.prems" by (intro "3.IH") auto
  ultimately show ?case by simp
qed

lemma canonical_tagD:
  assumes "canonical_tag n"
  shows "n \<noteq> []" "\<forall>c\<in>set n. \<not> is_space c" "trim n = n" "startsWith_hash n"
    "toLowerCase (collapse_hashes n) = n"
proof -
  from assms show sw: "startsWith_hash n" and ns: "\<forall>c\<in>set n. \<not> is_space c"
    and "toLowerCase (collapse_hashes n) = n"
    by (simp_all add: canonical_tag_def)
  from sw show ne: "n \<noteq> []" by (auto simp: startsWith_hash_def)
  with ns have "\<not> is_space (hd n)" "\<not> is_space (last n)" by simp_all
  with ne show "trim n = n" by (simp add: trim_id)
qed

lemma parseTags_join_sp:
  assumes "\<forall>n\<in>set names. canonical_tag n"
  shows "parseTags (join_sp names) = from_set names"
proof (cases "names = []")
  case True
  then show ?thesis by (simp add: parseTags_def from_set_def)
next
  case False
  then obtain x xs where nx: "names = x # xs" by (cases names) auto
  with assms have "x \<noteq> []" by (auto dest: canonical_tagD)
  then have ne: "join_sp names \<noteq> []" using hd_join_sp [of x xs] nx by simp
  have sp: "split_ws (join_sp names) = names"
    using assms False by (intro split_ws_join_sp) (auto dest: canonical_tagD)
  have m1: "map trim names = names"
    using assms by (intro map_idI) (auto dest: canonical_tagD)
  have m2: "filter startsWith_hash names = names"
    using assms by (auto simp: filter_id_conv dest: canonical_tagD)
  have m3: "map (\<lambda>t. toLowerCase (collapse_hashes t)) names = names"
    using assms by (intro map_idI) (auto dest: canonical_tagD)
  show ?thesis
    by (simp add: parseTags_def ne sp m1 m2 m3)
qed

lemma post_tag_names_vocab:
  "set (post_tag_names d pid) \<subseteq> t_name ` set (tags d)"
  by (auto simp: set_post_tag_names)

text \<open>
  Claim C10: when the submitted tag text is missing or blank, the route reads the names of
  the post, joins them with spaces and runs them through the same replacement; the names
  read back for the post after the edit are the names read back before it. The store
  satisfies the keys of the schema and holds canonical names only. Names enter
  \<^verbatim>\<open>tags\<close> through \<^verbatim>\<open>ensureTagIds(parseTags(...))\<close> alone, in this route and in the
  upload route, and that keeps both properties (lemma \<open>edit_post_preserves\<close> below).
\<close>

theorem edit_blank_keeps_tags:
  assumes "schema_keys d" and "canonical_vocabulary d"
    and "edit_post session pid bt d = Inr d'" and "blank bt"
  shows "set (post_tag_names d' pid) = set (post_tag_names d pid)"
proof -
  from assms(1) have k: "distinct (map t_id (tags d))" by (simp add: schema_keys_def)
  from edit_post_Inr [OF assms(3)] assms(4)
  have d': "d' = set_tags pid (join_sp (post_tag_names d pid)) d" by auto
  have "\<forall>n\<in>set (post_tag_names d pid). canonical_tag n"
    using assms(2) post_tag_names_vocab [of d pid] by (auto simp: canonical_vocabulary_def)
  then have "parseTags (join_sp (post_tag_names d pid)) = from_set (post_tag_names d pid)"
    by (rule parseTags_join_sp)
  with set_tags_names [OF k, of pid "join_sp (post_tag_names d pid)"] show ?thesis
    by (simp add: d')
qed

theorem edit_blank_keeps_tags_witness:
  "schema_keys cats_db \<and> canonical_vocabulary cats_db \<and> blank (Some ''  '') \<and>
   edit_post (Some 1) 1 (Some ''  '') cats_db
     = Inr (cats_db\<lparr>post_tags := [(2, 1), (1, 1), (1, 2)]\<rparr>) \<and>
   set (post_tag_names (cats_db\<lparr>post_tags := [(2, 1), (1, 1), (1, 2)]\<rparr>) 1)
     = set (post_tag_names cats_db 1)"
proof -
  have h1: "schema_keys cats_db" by (simp add: schema_keys_def cats_db_def)
  have h2: "canonical_vocabulary cats_db" by code_simp
  have h3: "edit_post (Some 1) 1 (Some ''  '') cats_db
     = Inr (cats_db\<lparr>post_tags := [(2, 1), (1, 1), (1, 2)]\<rparr>)"
    by code_simp
  have h4: "blank (Some ''  '')" by code_simp
  from edit_blank_keeps_tags [OF h1 h2 h3 h4] h1 h2 h3 h4 show ?thesis by simp
qed

subsection \<open>The routes keep the store well formed\<close>

lemma of_char_to_lower:
  "(of_char (to_lower c) :: nat) =
     (if (65 \<le> (of_char c :: nat) \<and> (of_char c :: nat) \<le> 90) \<or>
         (192 \<le> (of_char c :: nat) \<and> (of_char c :: nat) \<le> 222 \<and> (of_char c :: nat) \<noteq> 215)
      then of_char c + 32 else of_char c)"
  by (auto simp: to_lower_def Let_def)

lemma to_lower_idem [simp]: "to_lower (to_lower c) = to_lower c"
proof -
  have "(of_char (to_lower (to_lower c)) :: nat) = of_char (to_lower c)"
    by (subst of_char_to_lower) (auto simp: of_char_to_lower)
  then show ?thesis by (simp only: of_char_eq_iff)
qed

lemma to_lower_eq_hash: "to_lower c = CHR ''#'' \<Longrightarrow> c = CHR ''#''"
proof -
  assume "to_lower c = CHR ''#''"
  then have "(of_char (to_lower c) :: nat) = of_char CHR ''#''" by simp
  then have "(of_char c :: nat) = of_char CHR ''#''"
    by (simp add: of_char_to_lower split: if_splits)
  then show ?thesis by (simp only: of_char_eq_iff)
qed

lemma to_lower_space:
  assumes "is_space (to_lower c)"
  shows "is_space c"
proof -
  define n where "n = (of_char c :: nat)"
  have ar: "(if (65 \<le> n \<and> n \<le> 90) \<or> (192 \<le> n \<and> n \<le> 222 \<and> n \<noteq> 215) then n + 32 else n)
        \<in> {9, 10, 11, 12, 13, 32, 160} \<Longrightarrow> n \<in> {9, 10, 11, 12, 13, 32, 160}"
    by (cases "(65 \<le> n \<and> n \<le> 90) \<or> (192 \<le> n \<and> n \<le> 222 \<and> n \<noteq> 215)") auto
  from assms have "(of_char (to_lower c) :: nat) \<in> {9, 10, 11, 12, 13, 32, 160}"
    by (simp only: is_space_def)
  then have "n \<in> {9, 10, 11, 12, 13, 32, 160}"
    unfolding of_char_to_lower n_def [symmetric] by (rule ar)
  then show ?thesis by (simp only: is_space_def n_def)
qed

lemma split_ws_unfold:
  "split_ws s =
     (if dropWhile (\<lambda>c. \<not> is_space c) s = [] then [takeWhile (\<lambda>c. \<not> is_space c) s]
      else takeWhile (\<lambda>c. \<not> is_space c) s
           # split_ws (dropWhile is_space (dropWhile (\<lambda>c. \<not> is_space c) s)))"
  by (subst split_ws.simps) (simp only: Let_def)

lemma split_ws_no_space: "t \<in> set (split_ws s) \<Longrightarrow> c \<in> set t \<Longrightarrow> \<not> is_space c"
proof (induction s rule: split_ws.induct)
  case (1 s)
  let ?tok = "takeWhile (\<lambda>c. \<not> is_space c) s"
  let ?rest = "dropWhile (\<lambda>c. \<not> is_space c) s"
  have tok: "\<not> is_space c" if "c \<in> set ?tok"
    using that by (rule set_takeWhileD [THEN conjunct2])
  show ?case
  proof (cases "?rest = []")
    case True
    then have "split_ws s = [?tok]"
      by (simp only: split_ws_unfold [of s] simp_thms if_True)
    with "1.prems"(1) have "t = ?tok" by (simp only: list.set singleton_iff)
    with "1.prems"(2) have "c \<in> set ?tok" by (simp only:)
    then show ?thesis by (rule tok)
  next
    case False
    then have "split_ws s = ?tok # split_ws (dropWhile is_space ?rest)"
      by (simp only: split_ws_unfold [of s] simp_thms if_False)
    with "1.prems"(1) have "t = ?tok \<or> t \<in> set (split_ws (dropWhile is_space ?rest))"
      by (simp only: list.set insert_iff)
    then show ?thesis
    proof
      assume "t = ?tok"
      with "1.prems"(2) have "c \<in> set ?tok" by (simp only:)
    then show ?thesis by (rule tok)
    next
      assume "t \<in> set (split_ws (dropWhile is_space ?rest))"
      then show ?thesis
        using "1.prems"(2) by (rule "1.IH" [OF refl refl False])
    qed
  qed
qed

lemma set_trim: "set (trim s) \<subseteq> set s"
  unfolding trim_def by (auto dest!: set_dropWhileD)

lemma parseTags_canonical:
  assumes "x \<in> set (parseTags text)"
  shows "canonical_tag x"
proof -
  from assms obtain t where t: "t \<in> set (split_ws text)" "startsWith_hash (trim t)"
      "x = toLowerCase (collapse_hashes (trim t))"
    by (auto simp: parseTags_def split: if_splits)
  define u where "u = trim t"
  define r where "r = dropWhile (\<lambda>c. c = CHR ''#'') u"
  have nsu: "\<forall>c\<in>set u. \<not> is_space c"
    using split_ws_no_space [OF t(1)] set_trim [of t] by (auto simp: u_def)
  have x: "x = CHR ''#'' # map to_lower r"
    using t(2,3) by (simp add: collapse_hashes_def toLowerCase_def u_def r_def)
  have "set r \<subseteq> set u" by (auto simp: r_def dest: set_dropWhileD)
  with nsu have nsx: "\<forall>c\<in>set x. \<not> is_space c"
    by (auto simp: x dest: to_lower_space)
  have "r = [] \<or> hd r \<noteq> CHR ''#''"
    using hd_dropWhile [of "\<lambda>c. c = CHR ''#''" u] by (auto simp: r_def)
  then have "dropWhile (\<lambda>c. c = CHR ''#'') (map to_lower r) = map to_lower r"
    by (cases r) (auto dest: to_lower_eq_hash)
  then have "toLowerCase (collapse_hashes x) = x"
    by (simp add: x collapse_hashes_def startsWith_hash_def toLowerCase_def)
  with nsx show ?thesis
    by (simp add: canonical_tag_def) (simp add: x startsWith_hash_def)
qed

lemma ensureTagIds_names_distinct:
  "ensureTagIds ts d = (ids, d') \<Longrightarrow> distinct (map t_name (tags d))
     \<Longrightarrow> distinct (map t_name (tags d'))"
proof (induction ts arbitrary: d ids d')
  case Nil
  then show ?case by simp
next
  case (Cons t ts)
  show ?case
  proof (cases "tag_by_name d t")
    case None
    obtain ids1 d1 where r: "ensureTagIds ts (snd (insert_tag t d)) = (ids1, d1)"
      by (cases "ensureTagIds ts (snd (insert_tag t d))")
    have "distinct (map t_name (tags (snd (insert_tag t d))))"
      using Cons.prems(2) None by (simp add: insert_tag_eq tag_by_name_None)
    from Cons.IH [OF r this] Cons.prems None r show ?thesis
      by (auto simp: insert_tag_eq)
  next
    case (Some row)
    obtain ids1 d1 where r: "ensureTagIds ts d = (ids1, d1)"
      by (cases "ensureTagIds ts d")
    from Cons.IH [OF r Cons.prems(2)] Cons.prems Some r show ?thesis
      by auto
  qed
qed

lemma ensureTagIds_canonical:
  "ensureTagIds ts d = (ids, d') \<Longrightarrow> canonical_vocabulary d
     \<Longrightarrow> \<forall>t\<in>set ts. canonical_tag t \<Longrightarrow> canonical_vocabulary d'"
proof (induction ts arbitrary: d ids d')
  case Nil
  then show ?case by simp
next
  case (Cons t ts)
  show ?case
  proof (cases "tag_by_name d t")
    case None
    obtain ids1 d1 where r: "ensureTagIds ts (snd (insert_tag t d)) = (ids1, d1)"
      by (cases "ensureTagIds ts (snd (insert_tag t d))")
    have "canonical_vocabulary (snd (insert_tag t d))"
      using Cons.prems(2,3) by (simp add: insert_tag_eq canonical_vocabulary_def)
    from Cons.IH [OF r this] Cons.prems None r show ?thesis
      by (auto simp: insert_tag_eq)
  next
    case (Some row)
    obtain ids1 d1 where r: "ensureTagIds ts d = (ids1, d1)"
      by (cases "ensureTagIds ts d")
    from Cons.IH [OF r Cons.prems(2)] Cons.prems Some r show ?thesis
      by auto
  qed
qed

lemma attach_distinct:
  "distinct (post_tags d) \<Longrightarrow> distinct (post_tags (attachTagsToPost pid ids d))"
  by (induction ids arbitrary: d) auto

lemma set_tags_preserves:
  assumes "schema_keys d" "canonical_vocabulary d"
  shows "schema_keys (set_tags pid text d) \<and> canonical_vocabulary (set_tags pid text d)"
proof -
  let ?d1 = "delete_post_tags pid d"
  obtain ids d2 where e: "ensureTagIds (parseTags text) ?d1 = (ids, d2)"
    by (cases "ensureTagIds (parseTags text) ?d1")
  have st: "set_tags pid text d = attachTagsToPost pid ids d2"
    using e by (simp add: set_tags_def Let_def)
  have k1: "schema_keys ?d1" "canonical_vocabulary ?d1"
    using assms by (simp_all add: schema_keys_def canonical_vocabulary_def delete_post_tags_def)
  have fr: "users d2 = users ?d1" "posts d2 = posts ?d1" "post_tags d2 = post_tags ?d1"
    using ensureTagIds_frame [OF e] by simp_all
  have "distinct (map t_id (tags d2))" "distinct (map t_name (tags d2))"
    using ensureTagIds_ids_distinct [OF e] ensureTagIds_names_distinct [OF e] k1(1)
    by (simp_all add: schema_keys_def)
  with fr k1(1) have k2: "schema_keys d2" by (simp add: schema_keys_def)
  have c2: "canonical_vocabulary d2"
    using e k1(2) by (rule ensureTagIds_canonical) (simp add: parseTags_canonical)
  from k2 c2 show ?thesis
    by (simp add: st schema_keys_def canonical_vocabulary_def attach_frame attach_distinct)
qed

lemma edit_post_preserves:
  assumes "schema_keys d" "canonical_vocabulary d" "edit_post session pid bt d = Inr d'"
  shows "schema_keys d' \<and> canonical_vocabulary d'"
  using edit_post_Inr [OF assms(3)] set_tags_preserves [OF assms(1,2)] by auto

lemma empty_db_ok: "schema_keys empty_db \<and> canonical_vocabulary empty_db"
  by (simp add: schema_keys_def canonical_vocabulary_def empty_db_def)

subsection \<open>Autocomplete\<close>

text \<open>
  What the route does for every prefix: no entries without a prefix, at most 10 entries,
  each the name and the usage count of a row of \<^verbatim>\<open>tags\<close>, in descending order of the
  count. When the prefix holds neither \<^verbatim>\<open>%\<close> nor \<^verbatim>\<open>_\<close> and the vocabulary is
  canonical, every name returned starts with the normalised prefix.
\<close>

lemma like_percent: "like ''%'' s"
  by (induction s) simp_all

lemma like_prefix:
  assumes "CHR ''%'' \<notin> set p" "CHR ''_'' \<notin> set p"
  shows "like (p @ ''%'') s \<longleftrightarrow>
           length p \<le> length s \<and> map ascii_fold (take (length p) s) = map ascii_fold p"
  using assms
proof (induction p arbitrary: s)
  case Nil
  then show ?case by (simp add: like_percent)
next
  case (Cons a p)
  then show ?case by (cases s) auto
qed

lemma of_char_ascii_fold:
  "(of_char (ascii_fold c) :: nat) =
     (if 65 \<le> (of_char c :: nat) \<and> (of_char c :: nat) \<le> 90 then of_char c + 32 else of_char c)"
  by (auto simp: ascii_fold_def Let_def)

lemma ascii_fold_to_lower [simp]: "ascii_fold (to_lower c) = to_lower c"
proof -
  have "(of_char (ascii_fold (to_lower c)) :: nat) = of_char (to_lower c)"
    by (subst of_char_ascii_fold) (auto simp: of_char_to_lower)
  then show ?thesis by (simp only: of_char_eq_iff)
qed

lemma ascii_fold_hash [simp]: "ascii_fold CHR ''#'' = CHR ''#''"
  by (simp add: ascii_fold_def)

lemma ascii_fold_lowered: "map ascii_fold (toLowerCase s) = toLowerCase s"
  by (simp add: toLowerCase_def)

lemma canonical_folded:
  assumes "canonical_tag n"
  shows "map ascii_fold n = n"
proof -
  from assms have "toLowerCase (collapse_hashes n) = n" by (simp add: canonical_tag_def)
  then have "map ascii_fold n = map ascii_fold (toLowerCase (collapse_hashes n))" by simp
  also have "\<dots> = toLowerCase (collapse_hashes n)" by (rule ascii_fold_lowered)
  also have "\<dots> = n" by fact
  finally show ?thesis .
qed

lemma to_lower_wildcard:
  "to_lower c = CHR ''%'' \<Longrightarrow> c = CHR ''%''" "to_lower c = CHR ''_'' \<Longrightarrow> c = CHR ''_''"
proof -
  assume "to_lower c = CHR ''%''"
  then have "(of_char (to_lower c) :: nat) = of_char CHR ''%''" by simp
  then have "(of_char c :: nat) = of_char CHR ''%''"
    by (simp add: of_char_to_lower split: if_splits)
  then show "c = CHR ''%''" by (simp only: of_char_eq_iff)
next
  assume "to_lower c = CHR ''_''"
  then have "(of_char (to_lower c) :: nat) = of_char CHR ''_''" by simp
  then have "(of_char c :: nat) = of_char CHR ''_''"
    by (simp add: of_char_to_lower split: if_splits)
  then show "c = CHR ''_''" by (simp only: of_char_eq_iff)
qed

lemma autocomplete_shape:
  "autocomplete d None = [] \<and> autocomplete d (Some []) = [] \<and>
   length (autocomplete d q) \<le> 10 \<and>
   sorted_wrt (\<lambda>a b. snd b \<le> snd a) (autocomplete d q) \<and>
   set (autocomplete d q) \<subseteq> (\<lambda>t. (t_name t, usage_count d (t_id t))) ` set (tags d)"
proof -
  have s: "sorted_wrt (\<lambda>a b. snd b \<le> snd a) (take 10 (sort_key (\<lambda>r. - int (snd r)) rows))"
    for rows :: "(string \<times> nat) list"
  proof -
    have "sorted (map (\<lambda>r. - int (snd r)) (sort_key (\<lambda>r. - int (snd r)) rows))"
      by (rule sorted_sort_key)
    then have "sorted_wrt (\<lambda>a b. snd b \<le> snd a) (sort_key (\<lambda>r. - int (snd r)) rows)"
      by (simp add: sorted_map)
    then show ?thesis by (rule sorted_wrt_take)
  qed
  have m: "set (take 10 (sort_key (\<lambda>r. - int (snd r)) rows)) \<subseteq> set rows"
    for rows :: "(string \<times> nat) list"
    using set_take_subset [of 10 "sort_key (\<lambda>r. - int (snd r)) rows"] by simp
  show ?thesis
  proof (intro conjI)
    show "autocomplete d None = []" by (simp add: autocomplete_def or_empty_def toLowerCase_def)
    show "autocomplete d (Some []) = []"
      by (simp add: autocomplete_def or_empty_def toLowerCase_def)
    show "length (autocomplete d q) \<le> 10" by (simp add: autocomplete_def Let_def)
    show "sorted_wrt (\<lambda>a b. snd b \<le> snd a) (autocomplete d q)"
      by (simp add: autocomplete_def Let_def s del: sorted_wrt_take)
    show "set (autocomplete d q)
        \<subseteq> (\<lambda>t. (t_name t, usage_count d (t_id t))) ` set (tags d)"
      unfolding autocomplete_def Let_def
      by (auto dest!: subsetD [OF m])
  qed
qed

lemma autocomplete_prefix:
  assumes "canonical_vocabulary d" "CHR ''%'' \<notin> set q" "CHR ''_'' \<notin> set q"
    and "(n, c) \<in> set (autocomplete d (Some q))"
  shows "prefix (if startsWith_hash (toLowerCase q) then toLowerCase q
                 else CHR ''#'' # toLowerCase q) n"
proof -
  let ?l = "toLowerCase q"
  let ?p = "if startsWith_hash ?l then ?l else CHR ''#'' # ?l"
  have "CHR ''%'' \<notin> set ?l" "CHR ''_'' \<notin> set ?l"
    using assms(2,3) to_lower_wildcard by (force simp: toLowerCase_def)+
  then have nw: "CHR ''%'' \<notin> set ?p" "CHR ''_'' \<notin> set ?p"
    by auto
  have fp: "map ascii_fold ?p = ?p" by (simp add: ascii_fold_lowered)
  from assms(4) have "(n, c) \<in> set (map (\<lambda>t. (t_name t, usage_count d (t_id t)))
        (filter (\<lambda>t. like (?p @ ''%'') (t_name t)) (tags d)))"
    by (auto simp: autocomplete_def Let_def or_empty_def split: if_splits dest!: in_set_takeD)
  then obtain t where t: "t \<in> set (tags d)" "like (?p @ ''%'') (t_name t)" "n = t_name t"
    by auto
  from t(1) assms(1) have "canonical_tag n" by (simp add: canonical_vocabulary_def t(3))
  then have fn: "map ascii_fold n = n" by (rule canonical_folded)
  from t(2,3) have "like (?p @ ''%'') n" by simp
  then have "length ?p \<le> length n \<and> map ascii_fold (take (length ?p) n) = map ascii_fold ?p"
    using like_prefix [OF nw, of n] by blast
  then have "length ?p \<le> length n"
      "map ascii_fold (take (length ?p) n) = map ascii_fold ?p"
    by blast+
  have "take (length ?p) n = take (length ?p) (map ascii_fold n)" by (simp only: fn)
  also have "\<dots> = map ascii_fold (take (length ?p) n)" by (simp only: take_map)
  also have "\<dots> = map ascii_fold ?p" by fact
  also have "\<dots> = ?p" by (rule fp)
  finally have "take (length ?p) n = ?p" .
  then have "n = ?p @ drop (length ?p) n"
    using append_take_drop_id [of "length ?p" n] by simp
  then show ?thesis by (rule prefixI)
qed

text \<open>
  Claim C7 says that every suggestion is a tag whose name starts with the normalised
  prefix. The route passes the prefix to \<^verbatim>\<open>LIKE\<close> unescaped, so \<^verbatim>\<open>%\<close> and \<^verbatim>\<open>_\<close>
  in it are wildcards: for the prefix \<^verbatim>\<open>%t\<close> the pattern is \<^verbatim>\<open>#%t%\<close>, and the answer
  holds \<^verbatim>\<open>#cat\<close>, which does not start with \<^verbatim>\<open>#%t\<close>. The input handler of the page
  sends this prefix as it is.
\<close>

theorem autocomplete_wildcard:
  "input_prefix ''%t'' = Some ''%t'' \<and>
   autocomplete cats_db (Some ''%t'') = [(''#cat'', 2)] \<and>
   suggest cats_db ''%t'' = [(''#cat'', 2)] \<and>
   \<not> prefix ''#%t'' ''#cat''"
proof -
  have "input_prefix ''%t'' = Some ''%t''" by code_simp
  moreover have "autocomplete cats_db (Some ''%t'') = [(''#cat'', 2)]" by code_simp
  moreover have "suggest cats_db ''%t'' = [(''#cat'', 2)]" by code_simp
  moreover have "\<not> prefix ''#%t'' ''#cat''" by simp
  ultimately show ?thesis by simp
qed

end
